theory Spec2Isabelle
  imports Main "HOL-Library.Word"
begin

section \<open>Ledger data\<close>

text \<open>
  An account identifier is a 160-bit value; the zero value means "no account".
  Native amounts and the 256-bit amendment identifiers are unsigned machine words.
\<close>

type_synonym Account = "160 word"
type_synonym uint64_t = "64 word"
type_synonym uint32_t = "32 word"
type_synonym uint256 = "256 word"

text \<open>The transaction engine result codes the two transactors return.\<close>

datatype TER =
    tesSUCCESS
  | temDST_NEEDED
  | temREDUNDANT
  | temUNKNOWN
  | tecNO_DST
  | terNO_ACCOUNT
  | tefREFEREE_EXIST
  | tefREFERENCE_EXIST
  | tefALREADY

text \<open>
  An account root entry (\<^verbatim>\<open>ltACCOUNT_ROOT\<close>) with the fields the transactors read and
  write. \<^verbatim>\<open>sfReferences\<close> is an array of objects that each hold one \<^verbatim>\<open>sfReference\<close>
  account; it is kept as the list of those accounts, in array order.
\<close>

record AccountRoot =
  sfAccount :: Account
  sfBalance :: uint64_t
  sfBalanceVBC :: uint64_t
  sfReferee :: Account
  sfReferences :: "Account list"

text \<open>The \<^verbatim>\<open>ltDIVIDEND\<close> entry.\<close>

record DividendObject =
  sfDividendLedger :: uint32_t
  sfDividendCoins :: uint64_t
  sfDividendCoinsVBC :: uint64_t

text \<open>The indexes of the ledger entries the engine can mark as modified.\<close>

datatype LedgerIndex =
    AccountRootIndex Account
  | LedgerAmendmentIndex
  | LedgerDividendIndex

text \<open>
  The transaction engine's view of the ledger: \<^verbatim>\<open>entryCache\<close> of an account root is a
  lookup in \<open>accountRoots\<close> (a null pointer is \<open>None\<close>), the amendments entry is its
  \<^verbatim>\<open>sfAmendments\<close> vector when the entry exists, and \<^verbatim>\<open>entryModify\<close> adds an index to
  \<open>modified\<close>. The entry pointers of the source alias the cached entries, so a field
  written through a pointer is written into the engine's entry.
\<close>

record TransactionEngine =
  accountRoots :: "Account \<rightharpoonup> AccountRoot"
  amendmentObject :: "uint256 list option"
  dividendObject :: "DividendObject option"
  modified :: "LedgerIndex set"

definition entryModify :: "LedgerIndex \<Rightarrow> TransactionEngine \<Rightarrow> TransactionEngine" where
  "entryModify i e = e\<lparr>modified := insert i (modified e)\<rparr>"

definition setAccountRoot :: "Account \<Rightarrow> AccountRoot \<Rightarrow> TransactionEngine \<Rightarrow> TransactionEngine" where
  "setAccountRoot a sle e = e\<lparr>accountRoots := (accountRoots e)(a \<mapsto> sle)\<rparr>"

section \<open>AddReferee\<close>

text \<open>
  The loop of \<^verbatim>\<open>AddReferee::doApply\<close> over the referee's \<^verbatim>\<open>sfReferences\<close>: it returns
  at the first entry equal to \<open>referenceID\<close>.
\<close>

fun referenceExists :: "Account list \<Rightarrow> Account \<Rightarrow> bool" where
  "referenceExists [] referenceID = False"
| "referenceExists (id' # references) referenceID =
     (if id' = referenceID then True else referenceExists references referenceID)"

text \<open>
  \<^verbatim>\<open>AddReferee::doApply\<close>. \<open>refereeID\<close> is the transaction's \<^verbatim>\<open>sfDestination\<close> (the
  referrer), \<open>referenceID\<close> the transaction's own account (the referred account).
\<close>

definition AddReferee_doApply ::
  "Account \<Rightarrow> Account \<Rightarrow> TransactionEngine \<Rightarrow> TER \<times> TransactionEngine" where
  "AddReferee_doApply refereeID referenceID e =
     (if refereeID = 0 then (temDST_NEEDED, e)
      else if referenceID = refereeID then (temREDUNDANT, e)
      else
        (case accountRoots e refereeID of
           None \<Rightarrow> (tecNO_DST, e)
         | Some sleReferee \<Rightarrow>
            (case accountRoots e referenceID of
               None \<Rightarrow> (terNO_ACCOUNT, e)
             | Some sleReference \<Rightarrow>
                 if sfReferee sleReference \<noteq> 0 then (tefREFEREE_EXIST, e)
                 else
                   let references = sfReferences sleReferee in
                   if referenceExists references referenceID then (tefREFERENCE_EXIST, e)
                   else
                     let e1 = entryModify (AccountRootIndex referenceID) e;
                         e2 = entryModify (AccountRootIndex refereeID) e1;
                         e3 = setAccountRoot referenceID
                                (sleReference\<lparr>sfReferee := refereeID\<rparr>) e2;
                         e4 = setAccountRoot refereeID
                                (sleReferee\<lparr>sfReferences := references @ [referenceID]\<rparr>) e3
                     in (tesSUCCESS, e4))))"

text \<open>
  A sequence of AddReferee transactions, each given as (referrer, referred), applied in
  order; the result is \<open>None\<close> as soon as one of them does not succeed.
\<close>

fun linkAll :: "(Account \<times> Account) list \<Rightarrow> TransactionEngine \<Rightarrow> TransactionEngine option" where
  "linkAll [] e = Some e"
| "linkAll ((referrer, referred) # txs) e =
     (case AddReferee_doApply referrer referred e of
        (tesSUCCESS, e') \<Rightarrow> linkAll txs e'
      | _ \<Rightarrow> None)"

text \<open>
  The referral relation of a ledger: an edge from \<open>referrer\<close> to \<open>referred\<close> is the
  referred account's non-zero \<^verbatim>\<open>sfReferee\<close> field together with the referred account's
  entry in the referrer's \<^verbatim>\<open>sfReferences\<close>.
\<close>

definition refers :: "TransactionEngine \<Rightarrow> Account \<Rightarrow> Account \<Rightarrow> bool" where
  "refers e referrer referred =
     (case accountRoots e referred of
        None \<Rightarrow> False
      | Some sleReference \<Rightarrow>
          sfReferee sleReference = referrer \<and> referrer \<noteq> 0 \<and>
          (case accountRoots e referrer of
             None \<Rightarrow> False
           | Some sleReferee \<Rightarrow> referred \<in> set (sfReferences sleReferee)))"

definition referral :: "TransactionEngine \<Rightarrow> (Account \<times> Account) set" where
  "referral e = {(referrer, referred). refers e referrer referred}"

definition noRefereeSet :: "TransactionEngine \<Rightarrow> bool" where
  "noRefereeSet e = (\<forall>sle \<in> ran (accountRoots e). sfReferee sle = 0)"

section \<open>Change: amendments\<close>

text \<open>
  The application-wide amendment table and the network operations flag that
  \<^verbatim>\<open>applyAmendment\<close> signals to.
\<close>

record Application =
  enabledAmendments :: "uint256 set"
  amendmentBlocked :: bool

text \<open>\<^verbatim>\<open>entryCreate\<close> of the amendments entry: a new entry whose vector is empty.\<close>

definition entryCreateAmendments :: "TransactionEngine \<Rightarrow> TransactionEngine" where
  "entryCreateAmendments e = e\<lparr>amendmentObject := Some []\<rparr>"

definition getFieldV256 :: "TransactionEngine \<Rightarrow> uint256 list" where
  "getFieldV256 e = (case amendmentObject e of None \<Rightarrow> [] | Some amendments \<Rightarrow> amendments)"

text \<open>
  \<^verbatim>\<open>Change::applyAmendment\<close>. \<open>isSupported\<close> is the amendment table's answer for the
  running node.
\<close>

definition applyAmendment ::
  "(uint256 \<Rightarrow> bool) \<Rightarrow> uint256 \<Rightarrow> TransactionEngine \<Rightarrow> Application
     \<Rightarrow> TER \<times> TransactionEngine \<times> Application" where
  "applyAmendment isSupported amendment e app =
     (let e1 = (case amendmentObject e of None \<Rightarrow> entryCreateAmendments e | Some _ \<Rightarrow> e);
          amendments = getFieldV256 e1
      in if amendment \<in> set amendments then (tefALREADY, e1, app)
         else
           let e2 = e1\<lparr>amendmentObject := Some (amendments @ [amendment])\<rparr>;
               e3 = entryModify LedgerAmendmentIndex e2;
               app1 = app\<lparr>enabledAmendments := insert amendment (enabledAmendments app)\<rparr>;
               app2 = (if \<not> isSupported amendment then app1\<lparr>amendmentBlocked := True\<rparr>
                       else app1)
           in (tesSUCCESS, e3, app2))"

section \<open>Change: dividend\<close>

text \<open>
  The two ways a run of the dividend transaction crashes are results of their own:
  reading \<^verbatim>\<open>accounts[0]\<close> of an empty vector and an integer division by zero.
\<close>

datatype fault = OutOfBounds | DivisionByZero

text \<open>
  The two constants of the system parameters the dividend functor uses; their header is
  not part of the sources at hand, so they are parameters of the model.
\<close>

record SystemParameters =
  SYSTEM_CURRENCY_PARTS :: uint64_t
  VRP_INCREASE_RATE :: uint64_t

subsection \<open>The power table\<close>

type_synonym power_map = "Account \<rightharpoonup> (uint64_t \<times> uint64_t)"

text \<open>
  \<^verbatim>\<open>p[r]\<close> on the hash map: a missing key is inserted with the value-initialised pair.
\<close>

definition powerIndex :: "power_map \<Rightarrow> Account \<Rightarrow> (uint64_t \<times> uint64_t) \<times> power_map" where
  "powerIndex p r = (case p r of None \<Rightarrow> ((0, 0), p(r \<mapsto> (0, 0))) | Some v \<Rightarrow> (v, p))"

text \<open>
  \<^verbatim>\<open>Change::getPower\<close> and its loop over the references of \<open>r\<close>. The recursion of the
  source is not bounded by its arguments, so the model counts the depth of nested calls
  down from \<open>fuel\<close>: \<open>None\<close> stands for a recursion deeper than \<open>fuel\<close>, and a run that
  never returns is \<open>None\<close> for every \<open>fuel\<close>. The loop carries \<^verbatim>\<open>sum\<close> (here \<open>sumAcc\<close>) and \<^verbatim>\<open>maxP\<close>.
\<close>

fun getPower :: "nat \<Rightarrow> TransactionEngine \<Rightarrow> Account \<Rightarrow> power_map
                  \<Rightarrow> (uint64_t \<times> power_map) option"
  and getPowerLoop :: "nat \<Rightarrow> TransactionEngine \<Rightarrow> Account list \<Rightarrow> uint64_t \<Rightarrow> uint64_t
                  \<Rightarrow> power_map \<Rightarrow> (uint64_t \<times> uint64_t \<times> power_map) option"
where
  "getPower 0 e r p = None"
| "getPower (Suc fuel) e r p =
     (case p r of
        Some v \<Rightarrow> Some (fst v, p)
      | None \<Rightarrow>
          (case accountRoots e r of
             None \<Rightarrow> Some (0, p)
           | Some sle \<Rightarrow>
               let references = sfReferences sle in
               if references = [] then Some (0, p(r \<mapsto> (0, 0)))
               else
                 (case getPowerLoop fuel e references 0 0 p of
                    None \<Rightarrow> None
                  | Some (sumAcc, maxP, p') \<Rightarrow> Some (sumAcc, p'(r \<mapsto> (sumAcc, maxP))))))"
| "getPowerLoop fuel e [] sumAcc maxP p = Some (sumAcc, maxP, p)"
| "getPowerLoop fuel e (raChild # rest) sumAcc maxP p =
     (case accountRoots e raChild of
        None \<Rightarrow> getPowerLoop fuel e rest sumAcc maxP p
      | Some sleChild \<Rightarrow>
          (case getPower fuel e raChild p of
             None \<Rightarrow> None
           | Some (v, p1) \<Rightarrow>
               let c = sfBalanceVBC sleChild;
                   (pw, p2) = powerIndex p1 raChild;
                   m = snd pw
               in getPowerLoop fuel e rest (sumAcc + (v + c)) (max (max m c) maxP) p2))"

text \<open>The loop of \<^verbatim>\<open>applyDividend\<close> that calls \<^verbatim>\<open>getPower\<close> for every root.\<close>

fun getPowerRoots :: "nat \<Rightarrow> TransactionEngine \<Rightarrow> Account list \<Rightarrow> power_map
                       \<Rightarrow> power_map option" where
  "getPowerRoots fuel e [] p = Some p"
| "getPowerRoots fuel e (r # roots) p =
     (case getPower fuel e r p of
        None \<Rightarrow> None
      | Some (v, p') \<Rightarrow> getPowerRoots fuel e roots p')"

text \<open>
  The same three functions with a log: every execution of the body of \<^verbatim>\<open>getPower\<close>
  that derives a pair and stores it (the two assignments to \<^verbatim>\<open>p[r]\<close>) appends \<open>r\<close> to
  the log. The log is not part of the program; it counts how often an account is derived.
\<close>

fun getPowerLog :: "nat \<Rightarrow> TransactionEngine \<Rightarrow> Account \<Rightarrow> power_map \<times> Account list
                  \<Rightarrow> (uint64_t \<times> power_map \<times> Account list) option"
  and getPowerLoopLog :: "nat \<Rightarrow> TransactionEngine \<Rightarrow> Account list \<Rightarrow> uint64_t \<Rightarrow> uint64_t
                  \<Rightarrow> power_map \<times> Account list
                  \<Rightarrow> (uint64_t \<times> uint64_t \<times> power_map \<times> Account list) option"
where
  "getPowerLog 0 e r (p, log) = None"
| "getPowerLog (Suc fuel) e r (p, log) =
     (case p r of
        Some v \<Rightarrow> Some (fst v, p, log)
      | None \<Rightarrow>
          (case accountRoots e r of
             None \<Rightarrow> Some (0, p, log)
           | Some sle \<Rightarrow>
               let references = sfReferences sle in
               if references = [] then Some (0, p(r \<mapsto> (0, 0)), log @ [r])
               else
                 (case getPowerLoopLog fuel e references 0 0 (p, log) of
                    None \<Rightarrow> None
                  | Some (sumAcc, maxP, p', log') \<Rightarrow>
                      Some (sumAcc, p'(r \<mapsto> (sumAcc, maxP)), log' @ [r]))))"
| "getPowerLoopLog fuel e [] sumAcc maxP (p, log) = Some (sumAcc, maxP, p, log)"
| "getPowerLoopLog fuel e (raChild # rest) sumAcc maxP (p, log) =
     (case accountRoots e raChild of
        None \<Rightarrow> getPowerLoopLog fuel e rest sumAcc maxP (p, log)
      | Some sleChild \<Rightarrow>
          (case getPowerLog fuel e raChild (p, log) of
             None \<Rightarrow> None
           | Some (v, p1, log1) \<Rightarrow>
               let c = sfBalanceVBC sleChild;
                   (pw, p2) = powerIndex p1 raChild;
                   m = snd pw
               in getPowerLoopLog fuel e rest (sumAcc + (v + c)) (max (max m c) maxP) (p2, log1)))"

fun getPowerRootsLog :: "nat \<Rightarrow> TransactionEngine \<Rightarrow> Account list \<Rightarrow> power_map \<times> Account list
                       \<Rightarrow> (power_map \<times> Account list) option" where
  "getPowerRootsLog fuel e [] pl = Some pl"
| "getPowerRootsLog fuel e (r # roots) pl =
     (case getPowerLog fuel e r pl of
        None \<Rightarrow> None
      | Some (v, pl') \<Rightarrow> getPowerRootsLog fuel e roots pl')"

text \<open>
  The edges the recursion follows: from an account to each entry of its
  \<^verbatim>\<open>sfReferences\<close> whose account root exists.
\<close>

definition referenceEdges :: "TransactionEngine \<Rightarrow> (Account \<times> Account) set" where
  "referenceEdges e =
     {(r, c). \<exists>sle. accountRoots e r = Some sle \<and> c \<in> set (sfReferences sle) \<and>
               accountRoots e c \<noteq> None}"

text \<open>
  The children of \<open>r\<close> that the loop of \<^verbatim>\<open>getPower\<close> does not skip, in array order,
  and the secondary balance the loop reads from a child's entry.
\<close>

definition children :: "TransactionEngine \<Rightarrow> Account \<Rightarrow> Account list" where
  "children e r =
     (case accountRoots e r of
        None \<Rightarrow> []
      | Some sle \<Rightarrow> filter (\<lambda>c. accountRoots e c \<noteq> None) (sfReferences sle))"

definition balanceVBC :: "TransactionEngine \<Rightarrow> Account \<Rightarrow> uint64_t" where
  "balanceVBC e c = (case accountRoots e c of None \<Rightarrow> 0 | Some sle \<Rightarrow> sfBalanceVBC sle)"

subsection \<open>Scanning and ranking the accounts\<close>

text \<open>
  A state item of the ledger: an account root or an entry of another type, which
  \<^verbatim>\<open>retrieveAccount\<close> skips.
\<close>

datatype SLE = AccountRootEntry AccountRoot | OtherEntry

fun retrieveAccount :: "(Account \<times> uint64_t) list \<times> Account list \<Rightarrow> SLE
                          \<Rightarrow> (Account \<times> uint64_t) list \<times> Account list" where
  "retrieveAccount (accounts, roots) (AccountRootEntry sle) =
     (let addr = sfAccount sle;
          bal = sfBalanceVBC sle;
          accounts' = accounts @ [(addr, bal)];
          referee = sfReferee sle
      in if referee = 0 then (accounts', roots @ [addr]) else (accounts', roots))"
| "retrieveAccount (accounts, roots) OtherEntry = (accounts, roots)"

text \<open>\<^verbatim>\<open>visitStateItems\<close> calls \<^verbatim>\<open>retrieveAccount\<close> on every state item in turn.\<close>

definition visitStateItems :: "SLE list \<Rightarrow> (Account \<times> uint64_t) list \<times> Account list" where
  "visitStateItems items = foldl retrieveAccount ([], []) items"

text \<open>
  The rank table is a hash map from an account to its rank and power metric. It is kept
  as an association list with one pair for each key; assigning to \<^verbatim>\<open>rank[a]\<close> replaces
  the pair of \<open>a\<close> or adds one. \<^verbatim>\<open>std::for_each\<close> runs over the pairs of the list.
\<close>

type_synonym rank_map = "(Account \<times> uint32_t \<times> uint64_t) list"

fun rankAssign :: "rank_map \<Rightarrow> Account \<Rightarrow> uint32_t \<times> uint64_t \<Rightarrow> rank_map" where
  "rankAssign [] a v = [(a, v)]"
| "rankAssign ((b, w) # rank) a v =
     (if b = a then (a, v) # rank else (b, w) # rankAssign rank a v)"

text \<open>
  The power metric stored with a rank is
  \<^verbatim>\<open>power[a].first - power[a].second + pow(power[a].second, 1.0/3)\<close>: an unsigned
  difference \<open>d\<close>, converted to floating point, added to the floating-point cube root of
  \<open>m\<close> and converted back to an unsigned 64-bit integer. The floating-point part is the
  parameter \<open>cubeRootAdd d m\<close> of the model.
\<close>

definition powerMetric :: "(uint64_t \<Rightarrow> uint64_t \<Rightarrow> uint64_t) \<Rightarrow> uint64_t \<times> uint64_t \<Rightarrow> uint64_t" where
  "powerMetric cubeRootAdd pw = cubeRootAdd (fst pw - snd pw) (snd pw)"

text \<open>
  The ranking loop of \<^verbatim>\<open>applyDividend\<close> from index 1 on. \<open>prev\<close> is the balance of
  \<^verbatim>\<open>accounts[i-1]\<close>. The \<^verbatim>\<open>int\<close> variables \<^verbatim>\<open>r\<close> and \<^verbatim>\<open>sum\<close> are only
  incremented, added to and converted to \<^verbatim>\<open>uint32_t\<close>, which keeps their bits; they
  are 32-bit values whose arithmetic wraps around, as the two's complement arithmetic of
  the compiled program does. The list is the part of the vector the \<^verbatim>\<open>int\<close> index
  runs over.
\<close>

type_synonym int32_t = "32 word"

fun rankLoop :: "(uint64_t \<Rightarrow> uint64_t \<Rightarrow> uint64_t) \<Rightarrow> (Account \<times> uint64_t) list \<Rightarrow> uint64_t
                   \<Rightarrow> int32_t \<Rightarrow> int32_t \<Rightarrow> uint64_t \<Rightarrow> rank_map \<Rightarrow> power_map
                   \<Rightarrow> rank_map \<times> int32_t \<times> uint64_t" where
  "rankLoop cubeRootAdd [] prev r sumAcc sumPower rank power' = (rank, sumAcc, sumPower)"
| "rankLoop cubeRootAdd ((a, bal) # accounts) prev r sumAcc sumPower rank power' =
     (let r' = (if bal > prev then r + 1 else r);
          (pw, power'') = powerIndex power' a;
          rank' = rankAssign rank a (r', powerMetric cubeRootAdd pw)
      in rankLoop cubeRootAdd accounts bal r' (sumAcc + r') (sumPower + snd pw)
           rank' power'')"

text \<open>
  The ranking part of \<^verbatim>\<open>applyDividend\<close>: the unconditional read of \<^verbatim>\<open>accounts[0]\<close>,
  then the loop. The result is the rank table, \<^verbatim>\<open>sum\<close> and \<^verbatim>\<open>sumPower\<close>.
\<close>

definition rankAccounts :: "(uint64_t \<Rightarrow> uint64_t \<Rightarrow> uint64_t) \<Rightarrow> (Account \<times> uint64_t) list
                   \<Rightarrow> power_map \<Rightarrow> fault + (rank_map \<times> int32_t \<times> uint64_t)" where
  "rankAccounts cubeRootAdd accounts power' =
     (case accounts of
        [] \<Rightarrow> Inl OutOfBounds
      | (a, bal) # rest \<Rightarrow>
          let r = 1;
              (pw, power'') = powerIndex power' a;
              rank = rankAssign [] a (r, powerMetric cubeRootAdd pw);
              sumAcc = r;
              sumPower = snd pw
          in Inr (rankLoop cubeRootAdd rest bal r sumAcc sumPower rank power''))"

subsection \<open>Paying one account\<close>

text \<open>
  What \<^verbatim>\<open>dividend_account::operator()\<close> works on: the engine and the two totals its
  pointers refer to.
\<close>

record dividend_state =
  engine :: TransactionEngine
  actualTotalDividend :: uint64_t
  actualTotalDividendVBC :: uint64_t

text \<open>
  The secondary payout \<^verbatim>\<open>divVBC\<close> of a rank table entry, computed before the account
  is looked up. Both divisions are unguarded.
\<close>

definition divVBC :: "uint64_t \<Rightarrow> uint32_t \<Rightarrow> uint64_t \<Rightarrow> uint32_t \<times> uint64_t \<Rightarrow> fault + uint64_t" where
  "divVBC totalDividendVBC totalPart totalPower v =
     (let totalDivVBCbyRank = totalDividendVBC div 2;
          totalDivVBCbyPower = totalDividendVBC - totalDivVBCbyRank
      in if totalPart = 0 then Inl DivisionByZero
         else
           let divVBCbyRank = totalDivVBCbyRank * ucast (fst v) div ucast totalPart
           in if totalPower = 0 then Inl DivisionByZero
              else
                let divVBCbyPower = totalDivVBCbyPower * snd v div totalPower
                in Inr (divVBCbyRank + divVBCbyPower))"

text \<open>\<^verbatim>\<open>dividend_account::operator()\<close> on one pair of the rank table.\<close>

definition dividend_account ::
  "SystemParameters \<Rightarrow> uint64_t \<Rightarrow> uint32_t \<Rightarrow> uint64_t \<Rightarrow> Account \<times> uint32_t \<times> uint64_t
     \<Rightarrow> dividend_state \<Rightarrow> fault + dividend_state" where
  "dividend_account params totalDividendVBC totalPart totalPower v st =
     (case divVBC totalDividendVBC totalPart totalPower (snd v) of
        Inl f \<Rightarrow> Inl f
      | Inr divVBC' \<Rightarrow>
          (case accountRoots (engine st) (fst v) of
             None \<Rightarrow> Inr st
           | Some sleDst \<Rightarrow>
               let e1 = entryModify (AccountRootIndex (fst v)) (engine st);
                   prevBalanceVBC = sfBalanceVBC sleDst;
                   (sleDst1, totalVBC1) =
                     (if divVBC' \<ge> SYSTEM_CURRENCY_PARTS params
                      then (sleDst\<lparr>sfBalanceVBC := prevBalanceVBC + divVBC'\<rparr>,
                            actualTotalDividendVBC st + divVBC')
                      else (sleDst, actualTotalDividendVBC st));
                   prevBalance = sfBalance sleDst1;
                   div' = prevBalanceVBC * VRP_INCREASE_RATE params;
                   sleDst2 = sleDst1\<lparr>sfBalance := prevBalance + div'\<rparr>
               in Inr \<lparr>engine = setAccountRoot (fst v) sleDst2 e1,
                       actualTotalDividend = actualTotalDividend st + div',
                       actualTotalDividendVBC = totalVBC1\<rparr>))"

text \<open>\<^verbatim>\<open>std::for_each\<close> of the functor over the rank table.\<close>

fun for_each_dividend ::
  "SystemParameters \<Rightarrow> uint64_t \<Rightarrow> uint32_t \<Rightarrow> uint64_t \<Rightarrow> rank_map
     \<Rightarrow> dividend_state \<Rightarrow> fault + dividend_state" where
  "for_each_dividend params totalDividendVBC totalPart totalPower [] st = Inr st"
| "for_each_dividend params totalDividendVBC totalPart totalPower (v # rank) st =
     (case dividend_account params totalDividendVBC totalPart totalPower v st of
        Inl f \<Rightarrow> Inl f
      | Inr st' \<Rightarrow> for_each_dividend params totalDividendVBC totalPart totalPower rank st')"

subsection \<open>The dividend transaction\<close>

definition entryCreateDividend :: "TransactionEngine \<Rightarrow> TransactionEngine" where
  "entryCreateDividend e =
     e\<lparr>dividendObject :=
         Some \<lparr>sfDividendLedger = 0, sfDividendCoins = 0, sfDividendCoinsVBC = 0\<rparr>\<rparr>"

text \<open>
  \<^verbatim>\<open>Change::applyDividend\<close>. \<open>items\<close> are the state items of the ledger in the order
  \<^verbatim>\<open>visitStateItems\<close> visits them; \<^verbatim>\<open>std::sort\<close> with \<^verbatim>\<open>pair_less\<close> is a sort by the
  balance. The result is \<open>None\<close> when \<^verbatim>\<open>getPower\<close> recurses deeper than \<open>fuel\<close>, a fault
  when the run crashes, and the result code with the new engine otherwise. The
  transaction's \<^verbatim>\<open>sfDividendCoins\<close> is read and not used.
\<close>

definition applyDividend ::
  "SystemParameters \<Rightarrow> (uint64_t \<Rightarrow> uint64_t \<Rightarrow> uint64_t) \<Rightarrow> nat \<Rightarrow> uint32_t \<Rightarrow> uint64_t
     \<Rightarrow> uint64_t \<Rightarrow> SLE list \<Rightarrow> TransactionEngine
     \<Rightarrow> (fault + TER \<times> TransactionEngine) option" where
  "applyDividend params cubeRootAdd fuel dividendLedger dividendCoins dividendCoinsVBC items e =
     (let e1 = (case dividendObject e of None \<Rightarrow> entryCreateDividend e | Some _ \<Rightarrow> e);
          (accounts, roots) = visitStateItems items;
          accounts' = sort_key snd accounts
      in case getPowerRoots fuel e1 roots Map.empty of
           None \<Rightarrow> None
         | Some power' \<Rightarrow>
             Some
               (case rankAccounts cubeRootAdd accounts' power' of
                  Inl f \<Rightarrow> Inl f
                | Inr (rank, sumAcc, sumPower) \<Rightarrow>
                    (case for_each_dividend params dividendCoinsVBC sumAcc
                            sumPower rank
                            \<lparr>engine = e1, actualTotalDividend = 0,
                             actualTotalDividendVBC = 0\<rparr> of
                       Inl f \<Rightarrow> Inl f
                     | Inr st \<Rightarrow>
                         let e2 = (engine st)\<lparr>dividendObject :=
                                    Some \<lparr>sfDividendLedger = dividendLedger,
                                          sfDividendCoins = actualTotalDividend st,
                                          sfDividendCoinsVBC = actualTotalDividendVBC st\<rparr>\<rparr>
                         in Inr (tesSUCCESS, entryModify LedgerDividendIndex e2))))"

section \<open>The referral checks as the specification lists them\<close>

text \<open>
  The six preconditions of linking a referral in the order of the specification, each
  with the result code of its failure: the referrer is a non-zero address, the referrer
  is not the referred account, the referrer's entry exists, the referred account's entry
  exists, the referred account has no referee yet, and the referrer's references do not
  hold the referred account yet.
\<close>

definition linkReferralChecks :: "Account \<Rightarrow> Account \<Rightarrow> TransactionEngine \<Rightarrow> (bool \<times> TER) list" where
  "linkReferralChecks referrer referred e =
     [(referrer \<noteq> 0, temDST_NEEDED),
      (referrer \<noteq> referred, temREDUNDANT),
      (accountRoots e referrer \<noteq> None, tecNO_DST),
      (accountRoots e referred \<noteq> None, terNO_ACCOUNT),
      (case accountRoots e referred of None \<Rightarrow> True | Some sle \<Rightarrow> sfReferee sle = 0,
       tefREFEREE_EXIST),
      (case accountRoots e referrer of None \<Rightarrow> True
       | Some sle \<Rightarrow> referred \<notin> set (sfReferences sle),
       tefREFERENCE_EXIST)]"

text \<open>The code of the first check of a list that does not hold.\<close>

fun firstViolated :: "(bool \<times> TER) list \<Rightarrow> TER option" where
  "firstViolated [] = None"
| "firstViolated ((holds, code) # checks) = (if holds then firstViolated checks else Some code)"

text \<open>
  The ledger after a successful link: the referred account's referee is the referrer,
  the referred account is appended to the referrer's references, both entries are marked
  as modified, and nothing else is changed.
\<close>

definition linkReferralSuccess :: "Account \<Rightarrow> Account \<Rightarrow> TransactionEngine \<Rightarrow> TransactionEngine" where
  "linkReferralSuccess referrer referred e =
     e\<lparr>accountRoots :=
         (\<lambda>a. if a = referred then
                 map_option (\<lambda>sle. sle\<lparr>sfReferee := referrer\<rparr>) (accountRoots e referred)
               else if a = referrer then
                 map_option (\<lambda>sle. sle\<lparr>sfReferences := sfReferences sle @ [referred]\<rparr>)
                   (accountRoots e referrer)
               else accountRoots e a),
       modified := modified e \<union> {AccountRootIndex referred, AccountRootIndex referrer}\<rparr>"

text \<open>
  A ledger is linked by a list of (referrer, referred) pairs when no account is the
  referred account of two pairs, the referee field of every account is the referrer of
  its pair, or zero when it has none, and for every pair the referrer is not zero and not
  the referred account, both entries exist and the referrer's references hold the
  referred account.
\<close>

definition linkedBy :: "(Account \<times> Account) list \<Rightarrow> TransactionEngine \<Rightarrow> bool" where
  "linkedBy links e =
     (distinct (map snd links) \<and>
      (\<forall>c sle. accountRoots e c = Some sle \<longrightarrow>
         (if c \<in> snd ` set links then (sfReferee sle, c) \<in> set links
          else sfReferee sle = 0)) \<and>
      (\<forall>rc \<in> set links.
         fst rc \<noteq> 0 \<and> fst rc \<noteq> snd rc \<and> accountRoots e (snd rc) \<noteq> None \<and>
         (\<exists>sr. accountRoots e (fst rc) = Some sr \<and> count_list (sfReferences sr) (snd rc) = 1)))"

section \<open>Ranks as the specification describes them\<close>

text \<open>
  The rank of an account in a rank table, as the \<^verbatim>\<open>uint32_t\<close> the table stores and as
  a number; 0 when it has no entry.
\<close>

definition rankWord :: "rank_map \<Rightarrow> Account \<Rightarrow> uint32_t" where
  "rankWord rank a = (case map_of rank a of None \<Rightarrow> 0 | Some v \<Rightarrow> fst v)"

definition rankOf :: "rank_map \<Rightarrow> Account \<Rightarrow> nat" where
  "rankOf rank a = unat (rankWord rank a)"

text \<open>
  Dense ranks along a list of balances: the first has rank \<open>r\<close>, and a rank is one more
  than the rank before it when its balance is strictly greater than the balance before
  it, and the same rank otherwise.
\<close>

fun ranksFrom :: "uint32_t \<Rightarrow> uint64_t list \<Rightarrow> uint32_t list" where
  "ranksFrom r [] = []"
| "ranksFrom r [b] = [r]"
| "ranksFrom r (b # c # bs) = r # ranksFrom (if c > b then r + 1 else r) (c # bs)"

section \<open>Power as the specification defines it\<close>

text \<open>The pair a power table holds for an account; the pair of zeros when it holds none.\<close>

definition powerAt :: "power_map \<Rightarrow> Account \<Rightarrow> uint64_t \<times> uint64_t" where
  "powerAt p r = (case p r of None \<Rightarrow> (0, 0) | Some v \<Rightarrow> v)"

text \<open>
  The two components of the power of \<open>r\<close> in terms of the power of its children: the sum
  over the children of the child's subtree sum plus the child's balance, and the maximum
  over the children of the larger of the child's maximal child metric and the child's
  balance (0 when there is no child). Sums are sums of unsigned 64-bit values.
\<close>

definition subtreeSum :: "power_map \<Rightarrow> TransactionEngine \<Rightarrow> Account \<Rightarrow> uint64_t" where
  "subtreeSum p e r = sum_list (map (\<lambda>c. fst (powerAt p c) + balanceVBC e c) (children e r))"

definition maxChildMetric :: "power_map \<Rightarrow> TransactionEngine \<Rightarrow> Account \<Rightarrow> uint64_t" where
  "maxChildMetric p e r =
     Max (insert 0 ((\<lambda>c. max (snd (powerAt p c)) (balanceVBC e c)) ` set (children e r)))"

text \<open>
  A power table is derived when each of its accounts exists, has all its children in the
  table, and holds the pair the two equations give.
\<close>

definition powerDerived :: "TransactionEngine \<Rightarrow> power_map \<Rightarrow> bool" where
  "powerDerived e p =
     (\<forall>r v. p r = Some v \<longrightarrow>
        accountRoots e r \<noteq> None \<and> set (children e r) \<subseteq> dom p \<and>
        v = (subtreeSum p e r, maxChildMetric p e r))"

text \<open>
  A table and log grow from \<open>(p, log)\<close> to \<open>(p', log')\<close> by deriving accounts reachable
  from \<open>S\<close>: the new table is derived and extends the old one, and the log is extended
  by exactly the new accounts of the table, each once.
\<close>

definition grows :: "TransactionEngine \<Rightarrow> Account set \<Rightarrow> power_map \<times> Account list
                       \<Rightarrow> power_map \<times> Account list \<Rightarrow> bool" where
  "grows e S pl pl' =
     (powerDerived e (fst pl') \<and> fst pl \<subseteq>\<^sub>m fst pl' \<and>
      (\<exists>new. snd pl' = snd pl @ new \<and> distinct new \<and> set new \<inter> dom (fst pl) = {} \<and>
             dom (fst pl') = dom (fst pl) \<union> set new \<and>
             set new \<subseteq> (referenceEdges e)\<^sup>* `` S))"

section \<open>Payouts as the specification defines them\<close>

text \<open>
  The secondary payout of a rank table entry: the rank share plus the power share, with
  the pool halves and the two denominators of the run, in unsigned 64-bit arithmetic.
\<close>

definition secondaryPayout :: "uint64_t \<Rightarrow> uint32_t \<Rightarrow> uint64_t \<Rightarrow> uint32_t \<times> uint64_t \<Rightarrow> uint64_t" where
  "secondaryPayout totalPoolVBC sumOfRanks sumOfPowerMaxMetric v =
     (let rankShare = (totalPoolVBC div 2) * ucast (fst v) div ucast sumOfRanks;
          powerShare = (totalPoolVBC - totalPoolVBC div 2) * snd v div sumOfPowerMaxMetric
      in rankShare + powerShare)"

text \<open>
  The payouts of a rank table that are credited: those of the entries whose account
  exists and whose payout is at least the minimum transferable unit.
\<close>

definition creditedPayouts :: "SystemParameters \<Rightarrow> uint64_t \<Rightarrow> uint32_t \<Rightarrow> uint64_t
                        \<Rightarrow> Account set \<Rightarrow> rank_map \<Rightarrow> uint64_t list" where
  "creditedPayouts params totalPoolVBC sumOfRanks sumOfPowerMaxMetric existing rank =
     map (\<lambda>av. secondaryPayout totalPoolVBC sumOfRanks sumOfPowerMaxMetric (snd av))
       (filter (\<lambda>av. fst av \<in> existing \<and>
                  SYSTEM_CURRENCY_PARTS params
                    \<le> secondaryPayout totalPoolVBC sumOfRanks sumOfPowerMaxMetric (snd av))
          rank)"

section \<open>The cube root\<close>

text \<open>
  Modelled from the spec: the floating-point part of the power metric (the conversions
  to and from \<^verbatim>\<open>double\<close> and the library's \<^verbatim>\<open>pow\<close>) is not in the sources. The
  specification gives the metric as the subtree sum minus the largest child metric plus
  the cube root of the largest child metric, brought back to an integer by truncation.
  \<open>cubeRootFloor n\<close> counts the positive \<open>k\<close> with \<open>k ^ 3 \<le> n\<close>, which is the integer part
  of the cube root of \<open>n\<close>.
\<close>

definition cubeRootFloor :: "nat \<Rightarrow> nat" where
  "cubeRootFloor n = length (filter (\<lambda>k. k ^ 3 \<le> n) [1..<Suc n])"

definition cubeRootAddTruncated :: "uint64_t \<Rightarrow> uint64_t \<Rightarrow> uint64_t" where
  "cubeRootAddTruncated d m = d + of_nat (cubeRootFloor (unat m))"

section \<open>Example ledgers\<close>

definition blankAccount :: "Account \<Rightarrow> AccountRoot" where
  "blankAccount a =
     \<lparr>sfAccount = a, sfBalance = 0, sfBalanceVBC = 0, sfReferee = 0, sfReferences = []\<rparr>"

text \<open>A ledger of the two accounts 1 and 2, neither with a referee or a reference.\<close>

definition twoAccounts :: TransactionEngine where
  "twoAccounts =
     \<lparr>accountRoots = [1 \<mapsto> blankAccount 1, 2 \<mapsto> blankAccount 2],
      amendmentObject = None, dividendObject = None, modified = {}\<rparr>"

text \<open>Example values of the two system parameters.\<close>

definition exampleParameters :: SystemParameters where
  "exampleParameters = \<lparr>SYSTEM_CURRENCY_PARTS = 1000000, VRP_INCREASE_RATE = 3\<rparr>"

text \<open>An application with no amendment enabled.\<close>

definition noApplication :: Application where
  "noApplication = \<lparr>enabledAmendments = {}, amendmentBlocked = False\<rparr>"

text \<open>A ledger of one account, with primary balance 50 and secondary balance 7000000,
  before any payout.\<close>

definition payState :: dividend_state where
  "payState = \<lparr>engine = twoAccounts\<lparr>accountRoots :=
        [1 \<mapsto> (blankAccount 1)\<lparr>sfBalance := 50, sfBalanceVBC := 7000000\<rparr>]\<rparr>,
      actualTotalDividend = 0, actualTotalDividendVBC = 0\<rparr>"

text \<open>
  Scenario A of the specification: account 1 has no referee and the one reference 2;
  account 2 has the referee 1, the secondary balance 100 and no reference.
\<close>

definition scenarioA :: TransactionEngine where
  "scenarioA =
     \<lparr>accountRoots =
        [1 \<mapsto> (blankAccount 1)\<lparr>sfReferences := [2]\<rparr>,
         2 \<mapsto> (blankAccount 2)\<lparr>sfReferee := 1, sfBalanceVBC := 100\<rparr>],
      amendmentObject = None, dividendObject = None, modified = {}\<rparr>"

text \<open>
  A ledger in which a subtree sum overflows: account 1 has the references 2 and 3, each
  of which has the referee 1 and the secondary balance \<open>2 ^ 63\<close>.
\<close>

definition overflowLedger :: TransactionEngine where
  "overflowLedger =
     \<lparr>accountRoots =
        [1 \<mapsto> (blankAccount 1)\<lparr>sfReferences := [2, 3]\<rparr>,
         2 \<mapsto> (blankAccount 2)\<lparr>sfReferee := 1, sfBalanceVBC := 9223372036854775808\<rparr>,
         3 \<mapsto> (blankAccount 3)\<lparr>sfReferee := 1, sfBalanceVBC := 9223372036854775808\<rparr>],
      amendmentObject = None, dividendObject = None, modified = {}\<rparr>"

text \<open>
  A family: account 1 has no referee, the balance 0 and the references 2, 3 and 4, each
  of which has the referee 1 and the secondary balance 1.
\<close>

definition familyAccounts :: "AccountRoot list" where
  "familyAccounts =
     [(blankAccount 1)\<lparr>sfReferences := [2, 3, 4]\<rparr>,
      (blankAccount 2)\<lparr>sfReferee := 1, sfBalanceVBC := 1\<rparr>,
      (blankAccount 3)\<lparr>sfReferee := 1, sfBalanceVBC := 1\<rparr>,
      (blankAccount 4)\<lparr>sfReferee := 1, sfBalanceVBC := 1\<rparr>]"

definition familyLedger :: TransactionEngine where
  "familyLedger =
     \<lparr>accountRoots = map_of (map (\<lambda>sle. (sfAccount sle, sle)) familyAccounts),
      amendmentObject = None, dividendObject = None, modified = {}\<rparr>"

text \<open>
  A pair: account 1 has no referee, the balance 0 and the reference 2, which has the
  referee 1 and the secondary balance 1.
\<close>

definition pairAccounts :: "AccountRoot list" where
  "pairAccounts =
     [(blankAccount 1)\<lparr>sfReferences := [2]\<rparr>,
      (blankAccount 2)\<lparr>sfReferee := 1, sfBalanceVBC := 1\<rparr>]"

definition pairLedger :: TransactionEngine where
  "pairLedger =
     \<lparr>accountRoots = map_of (map (\<lambda>sle. (sfAccount sle, sle)) pairAccounts),
      amendmentObject = None, dividendObject = None, modified = {}\<rparr>"

section \<open>AddReferee: results and the referral relation\<close>

lemma referenceExists_set: "referenceExists references referenceID \<longleftrightarrow> referenceID \<in> set references"
  by (induction references) auto

lemma doApply_success:
  "AddReferee_doApply referrer referred e = (tesSUCCESS, e') \<Longrightarrow>
   \<exists>sleReferee sleReference.
     referrer \<noteq> 0 \<and> referrer \<noteq> referred \<and>
     accountRoots e referrer = Some sleReferee \<and> accountRoots e referred = Some sleReference \<and>
     sfReferee sleReference = 0 \<and> referred \<notin> set (sfReferences sleReferee) \<and>
     accountRoots e' = (accountRoots e)(referred \<mapsto> sleReference\<lparr>sfReferee := referrer\<rparr>,
        referrer \<mapsto> sleReferee\<lparr>sfReferences := sfReferences sleReferee @ [referred]\<rparr>)"
  by (auto simp: AddReferee_doApply_def referenceExists_set entryModify_def setAccountRoot_def
      Let_def split: if_splits option.splits)

lemma distinct_snd_unique:
  "distinct (map snd xs) \<Longrightarrow> (r, c) \<in> set xs \<Longrightarrow> (r', c) \<in> set xs \<Longrightarrow> r = r'"
proof -
  assume "distinct (map snd xs)" and m: "(r, c) \<in> set xs" "(r', c) \<in> set xs"
  then have "inj_on snd (set xs)" by (simp add: distinct_map)
  from inj_onD [OF this _ m] show "r = r'" by simp
qed

lemma noRefereeSet_linkedBy: "noRefereeSet e \<Longrightarrow> linkedBy [] e"
  by (auto simp: noRefereeSet_def linkedBy_def ran_def)

lemma doApply_linkedBy:
  assumes run: "AddReferee_doApply referrer referred e = (tesSUCCESS, e')"
    and inv: "linkedBy links e"
  shows "linkedBy (links @ [(referrer, referred)]) e'"
proof -
  from doApply_success [OF run] obtain sleReferee sleReference where
    h: "referrer \<noteq> 0" "referrer \<noteq> referred"
      "accountRoots e referrer = Some sleReferee"
      "accountRoots e referred = Some sleReference"
      "sfReferee sleReference = 0"
      "accountRoots e' = (accountRoots e)(referred \<mapsto> sleReference\<lparr>sfReferee := referrer\<rparr>,
        referrer \<mapsto> sleReferee\<lparr>sfReferences := sfReferences sleReferee @ [referred]\<rparr>)"
    and new: "referred \<notin> set (sfReferences sleReferee)"
    by blast
  from inv have d: "distinct (map snd links)"
    and fld: "\<And>c sle. accountRoots e c = Some sle \<Longrightarrow>
         (if c \<in> snd ` set links then (sfReferee sle, c) \<in> set links else sfReferee sle = 0)"
    and lnk: "\<And>rc. rc \<in> set links \<Longrightarrow>
         fst rc \<noteq> 0 \<and> fst rc \<noteq> snd rc \<and> accountRoots e (snd rc) \<noteq> None \<and>
         (\<exists>sr. accountRoots e (fst rc) = Some sr \<and> count_list (sfReferences sr) (snd rc) = 1)"
    unfolding linkedBy_def by blast+
  have fresh: "referred \<notin> snd ` set links"
  proof
    assume "referred \<in> snd ` set links"
    with fld [OF h(4)] have "(sfReferee sleReference, referred) \<in> set links" by simp
    from lnk [OF this] h(5) show False by simp
  qed
  let ?links = "links @ [(referrer, referred)]"
  have c1: "distinct (map snd ?links)"
    using d fresh by simp
  have c2: "if c \<in> snd ` set ?links then (sfReferee sle, c) \<in> set ?links else sfReferee sle = 0"
    if c: "accountRoots e' c = Some sle" for c sle
  proof (cases "c = referred")
    case True
    with c h(2,6) have "sle = sleReference\<lparr>sfReferee := referrer\<rparr>" by simp
    with True show ?thesis by simp
  next
    case False
    show ?thesis
    proof (cases "c = referrer")
      case True
      with c h(6) have "sfReferee sle = sfReferee sleReferee" by auto
      with fld [OF h(3)] True False show ?thesis by auto
    next
      case notr: False
      with False c h(6) have "accountRoots e c = Some sle" by simp
      from fld [OF this] False show ?thesis by auto
    qed
  qed
  have keep: "accountRoots e' a \<noteq> None" if "accountRoots e a \<noteq> None" for a
    using that h(6) by simp
  have refs: "\<exists>sr. accountRoots e' a = Some sr \<and> count_list (sfReferences sr) x = 1"
    if "accountRoots e a = Some sr0" "count_list (sfReferences sr0) x = 1" "x \<noteq> referred"
    for a x sr0
    using that h(2,3,4,6) by (cases "a = referrer"; cases "a = referred") auto
  have c3: "fst rc \<noteq> 0 \<and> fst rc \<noteq> snd rc \<and> accountRoots e' (snd rc) \<noteq> None \<and>
         (\<exists>sr. accountRoots e' (fst rc) = Some sr \<and> count_list (sfReferences sr) (snd rc) = 1)"
    if rc: "rc \<in> set ?links" for rc
  proof (cases "rc \<in> set links")
    case True
    from lnk [OF True] obtain sr0 where
      l: "fst rc \<noteq> 0" "fst rc \<noteq> snd rc" "accountRoots e (snd rc) \<noteq> None"
        "accountRoots e (fst rc) = Some sr0" "count_list (sfReferences sr0) (snd rc) = 1"
      by blast
    from True fresh have "snd rc \<noteq> referred" by force
    from l(1,2) keep [OF l(3)] refs [OF l(4,5) this] show ?thesis by blast
  next
    case False
    with rc have "rc = (referrer, referred)" by simp
    with h(1,2,6) new show ?thesis by (simp add: count_list_0_iff)
  qed
  show ?thesis
    unfolding linkedBy_def using c1 c2 c3 by blast
qed

lemma linkAll_linkedBy:
  "linkAll txs e = Some e' \<Longrightarrow> linkedBy links e \<Longrightarrow> linkedBy (links @ txs) e'"
proof (induction txs arbitrary: e links)
  case Nil
  then show ?case by simp
next
  case (Cons tx txs)
  obtain referrer referred where tx: "tx = (referrer, referred)" by (cases tx)
  obtain code e1 where r: "AddReferee_doApply referrer referred e = (code, e1)"
    by (cases "AddReferee_doApply referrer referred e")
  with Cons.prems(1) tx have code: "code = tesSUCCESS" and rest: "linkAll txs e1 = Some e'"
    by (auto split: TER.splits)
  from r code Cons.prems(2) have "linkedBy (links @ [(referrer, referred)]) e1"
    by (auto intro: doApply_linkedBy)
  from Cons.IH [OF rest this] show ?case by (simp add: tx)
qed

lemma linkedBy_referral:
  assumes "linkedBy links e"
  shows "referral e = set links"
proof -
  from assms have d: "distinct (map snd links)"
    and fld: "\<And>c sle. accountRoots e c = Some sle \<Longrightarrow>
         (if c \<in> snd ` set links then (sfReferee sle, c) \<in> set links else sfReferee sle = 0)"
    and lnk: "\<And>rc. rc \<in> set links \<Longrightarrow>
         fst rc \<noteq> 0 \<and> fst rc \<noteq> snd rc \<and> accountRoots e (snd rc) \<noteq> None \<and>
         (\<exists>sr. accountRoots e (fst rc) = Some sr \<and> count_list (sfReferences sr) (snd rc) = 1)"
    unfolding linkedBy_def by blast+
  have "(r, c) \<in> set links" if "refers e r c" for r c
  proof -
    from that obtain sle where s: "accountRoots e c = Some sle" "sfReferee sle = r" "r \<noteq> 0"
      by (auto simp: refers_def split: option.splits)
    from fld [OF s(1)] s(2,3) show ?thesis
      by (auto split: if_splits)
  qed
  moreover have "refers e r c" if rc: "(r, c) \<in> set links" for r c
  proof -
    from lnk [OF rc] obtain sle sr where
      l: "r \<noteq> 0" "accountRoots e c = Some sle" "accountRoots e r = Some sr"
        "count_list (sfReferences sr) c = 1"
      by auto
    from l(4) have mem: "c \<in> set (sfReferences sr)"
      by (metis count_list_0_iff zero_neq_one)
    from rc have "c \<in> snd ` set links" by force
    with fld [OF l(2)] have "(sfReferee sle, c) \<in> set links" by simp
    then have "sfReferee sle = r"
      by (rule distinct_snd_unique [OF d _ rc])
    with l mem show ?thesis by (simp add: refers_def)
  qed
  ultimately show ?thesis
    by (auto simp: referral_def)
qed

text \<open>
  Claim C1, as amended. For every sequence of successful AddReferee applications that
  starts from a ledger in which no account has a referee set, the resulting referral
  relation (read from the referee fields) is exactly the set of the links of the
  sequence, and no account is the referred account of two of these links: a referee,
  once set, is never set again, so each account has at most one referee. No account is
  its own referee, and each link is materialized exactly once in the references list of
  its referrer. Cycles through two or more accounts are not excluded.
\<close>

theorem referral_no_self_loop_one_referee:
  assumes "noRefereeSet e" and "linkAll txs e = Some e'"
  shows "referral e' = set txs \<and> distinct (map snd txs) \<and> irrefl (referral e') \<and>
         (\<forall>c r r'. refers e' r c \<and> refers e' r' c \<longrightarrow> r = r' \<and> (r, c) \<in> set txs) \<and>
         (\<forall>rc \<in> set txs. \<exists>sr. accountRoots e' (fst rc) = Some sr \<and>
            count_list (sfReferences sr) (snd rc) = 1)"
proof -
  have inv: "linkedBy txs e'"
    using linkAll_linkedBy [OF assms(2) noRefereeSet_linkedBy [OF assms(1)]] by simp
  then have rel: "referral e' = set txs"
    by (rule linkedBy_referral)
  from inv have d: "distinct (map snd txs)"
    and lnk: "\<And>rc. rc \<in> set txs \<Longrightarrow> fst rc \<noteq> snd rc"
    and cnt: "\<forall>rc \<in> set txs. \<exists>sr. accountRoots e' (fst rc) = Some sr \<and>
            count_list (sfReferences sr) (snd rc) = 1"
    unfolding linkedBy_def by blast+
  have irr: "irrefl (referral e')"
    unfolding rel using lnk by (force simp: irrefl_def)
  have one: "r = r' \<and> (r, c) \<in> set txs" if "refers e' r c \<and> refers e' r' c" for c r r'
  proof -
    from that have "(r, c) \<in> referral e'" "(r', c) \<in> referral e'"
      by (simp_all add: referral_def)
    then have m: "(r, c) \<in> set txs" "(r', c) \<in> set txs"
      by (simp_all add: rel)
    from distinct_snd_unique [OF d m] m(1) show ?thesis by simp
  qed
  from rel d irr one cnt show ?thesis by blast
qed

lemma twoAccounts_step1:
  "AddReferee_doApply 1 2 twoAccounts = (tesSUCCESS, linkReferralSuccess 1 2 twoAccounts)"
  by (simp add: AddReferee_doApply_def twoAccounts_def blankAccount_def linkReferralSuccess_def
     entryModify_def setAccountRoot_def Let_def fun_eq_iff insert_commute)

lemma twoAccounts_step2:
  "AddReferee_doApply 2 1 (linkReferralSuccess 1 2 twoAccounts) =
     (tesSUCCESS, linkReferralSuccess 2 1 (linkReferralSuccess 1 2 twoAccounts))"
  by (simp add: AddReferee_doApply_def twoAccounts_def blankAccount_def linkReferralSuccess_def
     entryModify_def setAccountRoot_def Let_def fun_eq_iff insert_commute)

lemma twoAccounts_linkAll:
  "linkAll [(1, 2), (2, 1)] twoAccounts =
     Some (linkReferralSuccess 2 1 (linkReferralSuccess 1 2 twoAccounts))"
  by (simp add: twoAccounts_step1 twoAccounts_step2)

lemma twoAccounts_cycle:
  "refers (linkReferralSuccess 2 1 (linkReferralSuccess 1 2 twoAccounts)) 1 2"
  "refers (linkReferralSuccess 2 1 (linkReferralSuccess 1 2 twoAccounts)) 2 1"
  by (simp_all add: refers_def linkReferralSuccess_def twoAccounts_def blankAccount_def)

lemma twoAccounts_noRefereeSet: "noRefereeSet twoAccounts"
  by (auto simp: noRefereeSet_def twoAccounts_def blankAccount_def ran_def split: if_splits)

text \<open>
  Claim C1 as stated fails. In the ledger of the two accounts 1 and 2, where no referee
  is set, linking 2 under 1 and then 1 under 2 both succeed, and the referral relation
  then holds the edges from 1 to 2 and from 2 to 1: a cycle.
\<close>

theorem referral_cycle_counterexample:
  "noRefereeSet twoAccounts \<and>
   (case linkAll [(1, 2), (2, 1)] twoAccounts of
      None \<Rightarrow> False
    | Some e \<Rightarrow> refers e 1 2 \<and> refers e 2 1 \<and> \<not> acyclic (referral e))"
proof -
  let ?e = "linkReferralSuccess 2 1 (linkReferralSuccess 1 2 twoAccounts)"
  have "(1, 2) \<in> referral ?e" and "(2, 1) \<in> referral ?e"
    by (simp_all add: referral_def twoAccounts_cycle)
  then have "(1, 1) \<in> (referral ?e)\<^sup>+"
    by (meson trancl.r_into_trancl trancl_trans)
  then have "\<not> acyclic (referral ?e)"
    by (auto simp: acyclic_def)
  then show ?thesis
    by (simp del: linkAll.simps add: twoAccounts_linkAll twoAccounts_cycle twoAccounts_noRefereeSet)
qed

text \<open>The amended claim at the same two links.\<close>

theorem referral_no_self_loop_one_referee_witness:
  "noRefereeSet twoAccounts \<and>
   linkAll [(1, 2), (2, 1)] twoAccounts =
     Some (linkReferralSuccess 2 1 (linkReferralSuccess 1 2 twoAccounts)) \<and>
   referral (linkReferralSuccess 2 1 (linkReferralSuccess 1 2 twoAccounts)) = {(1, 2), (2, 1)} \<and>
   irrefl (referral (linkReferralSuccess 2 1 (linkReferralSuccess 1 2 twoAccounts)))"
proof -
  let ?e = "linkReferralSuccess 2 1 (linkReferralSuccess 1 2 twoAccounts)"
  from referral_no_self_loop_one_referee [OF twoAccounts_noRefereeSet twoAccounts_linkAll]
  have "referral ?e = set [(1, 2), (2, 1)]" and "irrefl (referral ?e)"
    by blast+
  then show ?thesis
    using twoAccounts_noRefereeSet twoAccounts_linkAll by (simp del: linkAll.simps)
qed

text \<open>
  Claim C5. For every referrer, referred account and ledger, \<^verbatim>\<open>AddReferee::doApply\<close>
  returns the code of the first of the six preconditions, taken in the order of the
  specification, that does not hold, and leaves the engine as it was; the six codes are
  different from each other and from success. When all six hold it returns success, and
  the engine is changed in exactly this: the referred account's referee is the referrer,
  the referred account is appended to the referrer's references, and the two entries are
  marked as modified.
\<close>

theorem linkReferral_checks_in_order:
  "AddReferee_doApply referrer referred e =
     (case firstViolated (linkReferralChecks referrer referred e) of
        Some code \<Rightarrow> (code, e)
      | None \<Rightarrow> (tesSUCCESS, linkReferralSuccess referrer referred e))
   \<and> distinct (map snd (linkReferralChecks referrer referred e))
   \<and> tesSUCCESS \<notin> set (map snd (linkReferralChecks referrer referred e))"
proof -
  have "AddReferee_doApply referrer referred e =
     (case firstViolated (linkReferralChecks referrer referred e) of
        Some code \<Rightarrow> (code, e)
      | None \<Rightarrow> (tesSUCCESS, linkReferralSuccess referrer referred e))"
    by (auto simp: AddReferee_doApply_def linkReferralChecks_def linkReferralSuccess_def
        referenceExists_set entryModify_def setAccountRoot_def Let_def fun_eq_iff
        split: option.splits intro!: TransactionEngine.equality)
  moreover have "distinct (map snd (linkReferralChecks referrer referred e))"
    by (simp add: linkReferralChecks_def)
  moreover have "tesSUCCESS \<notin> set (map snd (linkReferralChecks referrer referred e))"
    by (simp add: linkReferralChecks_def)
  ultimately show ?thesis by blast
qed

text \<open>
  The theorem at the ledger of two accounts: a link of 2 under 1 succeeds; a zero
  referrer, a self-referral, a missing referrer and a missing referred account fail with
  their codes; and the same link a second time fails because the referee is set.
\<close>

theorem linkReferral_checks_in_order_witness:
  "AddReferee_doApply 1 2 twoAccounts = (tesSUCCESS, linkReferralSuccess 1 2 twoAccounts) \<and>
   AddReferee_doApply 0 2 twoAccounts = (temDST_NEEDED, twoAccounts) \<and>
   AddReferee_doApply 1 1 twoAccounts = (temREDUNDANT, twoAccounts) \<and>
   AddReferee_doApply 3 1 twoAccounts = (tecNO_DST, twoAccounts) \<and>
   AddReferee_doApply 1 3 twoAccounts = (terNO_ACCOUNT, twoAccounts) \<and>
   AddReferee_doApply 1 2 (linkReferralSuccess 1 2 twoAccounts) =
     (tefREFEREE_EXIST, linkReferralSuccess 1 2 twoAccounts)"
  using linkReferral_checks_in_order [of 1 2 twoAccounts]
    linkReferral_checks_in_order [of 0 2 twoAccounts]
    linkReferral_checks_in_order [of 1 1 twoAccounts]
    linkReferral_checks_in_order [of 3 1 twoAccounts]
    linkReferral_checks_in_order [of 1 3 twoAccounts]
    linkReferral_checks_in_order [of 1 2 "linkReferralSuccess 1 2 twoAccounts"]
  by (simp add: linkReferralChecks_def twoAccounts_def blankAccount_def
      linkReferralSuccess_def)

section \<open>Change: amendment activation\<close>

text \<open>
  Claim C9. For every amendment identifier and engine, \<^verbatim>\<open>applyAmendment\<close> ends with
  the amendments entry present (fetched or created). If the identifier is already in the
  entry's vector the result is \<^verbatim>\<open>tefALREADY\<close> and neither the engine nor the
  application is changed; otherwise the result is success, the identifier is appended to
  the vector and the entry is marked as modified. In both cases every identifier that
  was in the vector is still in it, and applying the same amendment again to the
  resulting engine gives \<^verbatim>\<open>tefALREADY\<close> and changes nothing.
\<close>

theorem applyAmendment_already_or_append:
  "(case applyAmendment isSupported amendment e app of
      (code, e', app') \<Rightarrow>
        (if amendment \<in> set (getFieldV256 e)
         then code = tefALREADY \<and> e' = e \<and> app' = app
         else code = tesSUCCESS \<and> getFieldV256 e' = getFieldV256 e @ [amendment] \<and>
              LedgerAmendmentIndex \<in> modified e' \<and> accountRoots e' = accountRoots e \<and>
              dividendObject e' = dividendObject e) \<and>
        amendmentObject e' \<noteq> None \<and>
        set (getFieldV256 e) \<subseteq> set (getFieldV256 e') \<and>
        applyAmendment isSupported amendment e' app' = (tefALREADY, e', app'))"
  by (auto simp: applyAmendment_def getFieldV256_def entryCreateAmendments_def entryModify_def
      Let_def split: option.splits)

text \<open>Activating amendment 7 on a ledger without an amendments entry, twice.\<close>

theorem applyAmendment_already_or_append_witness:
  "applyAmendment (\<lambda>a. True) 7 twoAccounts noApplication =
     (tesSUCCESS,
      twoAccounts\<lparr>amendmentObject := Some [7], modified := {LedgerAmendmentIndex}\<rparr>,
      noApplication\<lparr>enabledAmendments := {7}\<rparr>) \<and>
   applyAmendment (\<lambda>a. True) 7
      (twoAccounts\<lparr>amendmentObject := Some [7], modified := {LedgerAmendmentIndex}\<rparr>)
      (noApplication\<lparr>enabledAmendments := {7}\<rparr>) =
     (tefALREADY,
      twoAccounts\<lparr>amendmentObject := Some [7], modified := {LedgerAmendmentIndex}\<rparr>,
      noApplication\<lparr>enabledAmendments := {7}\<rparr>)"
proof -
  have 1: "applyAmendment (\<lambda>a. True) 7 twoAccounts noApplication =
     (tesSUCCESS,
      twoAccounts\<lparr>amendmentObject := Some [7], modified := {LedgerAmendmentIndex}\<rparr>,
      noApplication\<lparr>enabledAmendments := {7}\<rparr>)"
    by (simp add: applyAmendment_def getFieldV256_def entryCreateAmendments_def entryModify_def
      Let_def twoAccounts_def noApplication_def)
  show ?thesis
    using applyAmendment_already_or_append [where isSupported = "\<lambda>a. True" and amendment = 7
        and e = twoAccounts and app = noApplication]
    by (simp add: 1)
qed

section \<open>Change: paying one account\<close>

lemma dividend_account_existing:
  assumes "accountRoots (engine st) a = Some sleDst"
    and "divVBC totalDividendVBC totalPart totalPower (rk, metric) = Inr payout"
  shows "dividend_account params totalDividendVBC totalPart totalPower (a, rk, metric) st =
     Inr \<lparr>engine = setAccountRoot a
             (sleDst\<lparr>sfBalanceVBC := (if payout \<ge> SYSTEM_CURRENCY_PARTS params
                                        then sfBalanceVBC sleDst + payout else sfBalanceVBC sleDst),
                     sfBalance := sfBalance sleDst + sfBalanceVBC sleDst * VRP_INCREASE_RATE params\<rparr>)
             (entryModify (AccountRootIndex a) (engine st)),
          actualTotalDividend = actualTotalDividend st + sfBalanceVBC sleDst * VRP_INCREASE_RATE params,
          actualTotalDividendVBC = (if payout \<ge> SYSTEM_CURRENCY_PARTS params
                                    then actualTotalDividendVBC st + payout
                                    else actualTotalDividendVBC st)\<rparr>"
  using assms by (simp add: dividend_account_def Let_def)

lemma divVBC_defined:
  assumes "totalPart \<noteq> 0" and "totalPower \<noteq> 0"
  shows "divVBC totalDividendVBC totalPart totalPower (rk, metric) =
     Inr ((totalDividendVBC div 2) * ucast rk div ucast totalPart +
          (totalDividendVBC - totalDividendVBC div 2) * metric div totalPower)"
  using assms by (simp add: divVBC_def Let_def)

text \<open>
  Claim C6. For a rank table entry whose account exists, with non-zero denominators, let
  the secondary payout be the rank share plus the power share in the functor's unsigned
  64-bit arithmetic. If the payout is below \<^verbatim>\<open>SYSTEM_CURRENCY_PARTS\<close>, the account's
  secondary balance and the secondary total are unchanged; otherwise both grow by exactly
  the payout. No other account is changed in either case.
\<close>

theorem dividend_account_secondary_threshold:
  assumes "accountRoots (engine st) a = Some sleDst"
    and "totalPart \<noteq> 0" and "totalPower \<noteq> 0"
    and "rankShare = (totalDividendVBC div 2) * ucast rk div ucast totalPart"
    and "powerShare = (totalDividendVBC - totalDividendVBC div 2) * metric div totalPower"
    and "payout = rankShare + powerShare"
  shows "\<exists>st'. dividend_account params totalDividendVBC totalPart totalPower (a, rk, metric) st
            = Inr st' \<and>
     (if payout < SYSTEM_CURRENCY_PARTS params
      then map_option sfBalanceVBC (accountRoots (engine st') a) = Some (sfBalanceVBC sleDst) \<and>
           actualTotalDividendVBC st' = actualTotalDividendVBC st
      else map_option sfBalanceVBC (accountRoots (engine st') a)
             = Some (sfBalanceVBC sleDst + payout) \<and>
           actualTotalDividendVBC st' = actualTotalDividendVBC st + payout) \<and>
     (\<forall>b. b \<noteq> a \<longrightarrow> accountRoots (engine st') b = accountRoots (engine st) b)"
proof -
  have "divVBC totalDividendVBC totalPart totalPower (rk, metric) = Inr payout"
    using assms(2-6) by (simp add: divVBC_defined)
  from dividend_account_existing [OF assms(1) this, of params]
  show ?thesis
    by (auto simp: setAccountRoot_def entryModify_def not_le)
qed


text \<open>
  Claim C8 as stated fails. A pool of 4000000000000 is paid to an entry of rank 1 and
  power metric 10000000000000, with denominators 1 and 10000000000000. The product of
  the power half and the metric is above \<open>2 ^ 64\<close>; computed exactly the payout would be
  4000000000000. The functor does not fail: it credits 2000000318179, the value of the
  wrapped product.
\<close>

theorem dividend_overflow_wraps_counterexample:
  "(2 ^ 64 :: nat) \<le> (4000000000000 - 4000000000000 div 2) * 10000000000000 \<and>
   (4000000000000 div 2 * 1 div 1
      + (4000000000000 - 4000000000000 div 2) * 10000000000000 div 10000000000000 :: nat)
     = 4000000000000 \<and>
   (case dividend_account exampleParameters 4000000000000 1 10000000000000
           (1, 1, 10000000000000) payState of
      Inl f \<Rightarrow> False
    | Inr st' \<Rightarrow>
        actualTotalDividendVBC st' = 2000000318179 \<and>
        map_option sfBalanceVBC (accountRoots (engine st') 1) = Some (7000000 + 2000000318179))"
  by (simp add: dividend_account_def divVBC_def payState_def exampleParameters_def Let_def
     twoAccounts_def blankAccount_def setAccountRoot_def entryModify_def)

lemma unat_ucast_32_64: "unat (ucast (w :: uint32_t) :: uint64_t) = unat w"
proof -
  have "unat w < 2 ^ 32"
    using unsigned_less [of w] by simp
  then have "unat w < 2 ^ 64"
    by simp
  then show ?thesis
    by (simp add: unsigned_ucast_eq take_bit_nat_eq_self)
qed

lemma dividend_account_existing_modulo:
  assumes "accountRoots (engine st) a = Some sleDst"
    and "divVBC totalDividendVBC totalPart totalPower (rk, metric) = Inr payout"
  shows "\<exists>st'.
     dividend_account params totalDividendVBC totalPart totalPower (a, rk, metric) st = Inr st' \<and>
     map_option (unat \<circ> sfBalance) (accountRoots (engine st') a) =
       Some ((unat (sfBalance sleDst)
               + (unat (sfBalanceVBC sleDst) * unat (VRP_INCREASE_RATE params)) mod 2 ^ 64)
             mod 2 ^ 64) \<and>
     map_option (unat \<circ> sfBalanceVBC) (accountRoots (engine st') a) =
       Some (if SYSTEM_CURRENCY_PARTS params \<le> payout
             then (unat (sfBalanceVBC sleDst) + unat payout) mod 2 ^ 64
             else unat (sfBalanceVBC sleDst)) \<and>
     unat (actualTotalDividendVBC st') =
       (if SYSTEM_CURRENCY_PARTS params \<le> payout
        then (unat (actualTotalDividendVBC st) + unat payout) mod 2 ^ 64
        else unat (actualTotalDividendVBC st)) \<and>
     unat (actualTotalDividend st') =
       (unat (actualTotalDividend st)
          + (unat (sfBalanceVBC sleDst) * unat (VRP_INCREASE_RATE params)) mod 2 ^ 64)
       mod 2 ^ 64"
proof -
  have add: "unat (x + y) = (unat x + unat y) mod 2 ^ 64" for x y :: uint64_t
    by (simp add: unat_word_ariths(1))
  have mul: "unat (x * y) = (unat x * unat y) mod 2 ^ 64" for x y :: uint64_t
    by (simp add: unat_word_ariths(2))
  show ?thesis
    unfolding dividend_account_existing [OF assms, of params]
    by (simp add: setAccountRoot_def entryModify_def add mul del: mod_mod_trivial)
qed

lemma payState_account:
  "accountRoots (engine payState) 1 = Some ((blankAccount 1)\<lparr>sfBalance := 50, sfBalanceVBC := 7000000\<rparr>)"
  by (simp add: payState_def)

text \<open>
  A pool of 3000000 with denominators 3 and 100 paid to the example account: the entry
  of rank 2 and metric 50 has the payout 1750000, which is credited; the entry of rank 1
  and metric 0 has the payout 500000, which is dropped.
\<close>

theorem dividend_account_secondary_threshold_witness:
  "(\<exists>st'. dividend_account exampleParameters 3000000 3 100 (1, 2, 50) payState = Inr st' \<and>
      map_option sfBalanceVBC (accountRoots (engine st') 1) = Some 8750000 \<and>
      actualTotalDividendVBC st' = 1750000) \<and>
   (\<exists>st'. dividend_account exampleParameters 3000000 3 100 (1, 1, 0) payState = Inr st' \<and>
      map_option sfBalanceVBC (accountRoots (engine st') 1) = Some 7000000 \<and>
      actualTotalDividendVBC st' = 0)"
proof -
  have pre: "(3 :: uint32_t) \<noteq> 0" "(100 :: uint64_t) \<noteq> 0"
    by simp_all
  have credited: "\<exists>st'. dividend_account exampleParameters 3000000 3 100 (1, 2, 50) payState
        = Inr st' \<and>
      map_option sfBalanceVBC (accountRoots (engine st') 1) = Some 8750000 \<and>
      actualTotalDividendVBC st' = 1750000"
    using dividend_account_secondary_threshold [where st = payState and a = 1
      and params = exampleParameters and totalDividendVBC = 3000000 and rk = 2 and metric = 50,
      OF payState_account pre refl refl refl]
    by (auto simp: exampleParameters_def payState_def blankAccount_def)
  have dropped: "\<exists>st'. dividend_account exampleParameters 3000000 3 100 (1, 1, 0) payState
        = Inr st' \<and>
      map_option sfBalanceVBC (accountRoots (engine st') 1) = Some 7000000 \<and>
      actualTotalDividendVBC st' = 0"
    using dividend_account_secondary_threshold [where st = payState and a = 1
      and params = exampleParameters and totalDividendVBC = 3000000 and rk = 1 and metric = 0,
      OF payState_account pre refl refl refl]
    by (auto simp: exampleParameters_def payState_def blankAccount_def)
  from credited dropped show ?thesis ..
qed


section \<open>Change: ranking\<close>

lemma map_of_rankAssign: "map_of (rankAssign rank a v) = (map_of rank)(a \<mapsto> v)"
  by (induction rank) (auto simp: fun_eq_iff)

lemma rankAssign_keys: "fst ` set (rankAssign rank a v) = insert a (fst ` set rank)"
proof -
  have "fst ` set (rankAssign rank a v) = dom (map_of (rankAssign rank a v))"
    by (simp add: dom_map_of_conv_image_fst)
  also have "\<dots> = insert a (dom (map_of rank))"
    by (simp add: map_of_rankAssign)
  finally show ?thesis
    by (simp add: dom_map_of_conv_image_fst)
qed

lemma distinct_rankAssign: "distinct (map fst rank) \<Longrightarrow> distinct (map fst (rankAssign rank a v))"
proof (induction rank)
  case Nil
  then show ?case by simp
next
  case (Cons bw rank)
  obtain b w where bw: "bw = (b, w)" by (cases bw)
  show ?case
  proof (cases "b = a")
    case True
    with Cons.prems show ?thesis by (simp add: bw)
  next
    case False
    have "b \<notin> fst ` set (rankAssign rank a v)"
      using Cons.prems False by (simp add: rankAssign_keys bw)
    with Cons False show ?thesis by (simp add: bw)
  qed
qed

lemma length_ranksFrom: "length (ranksFrom r bs) = length bs"
  by (induction r bs rule: ranksFrom.induct) auto

lemma ranksFrom_0: "bs \<noteq> [] \<Longrightarrow> ranksFrom r bs ! 0 = r"
  by (induction r bs rule: ranksFrom.induct) auto

lemma ranksFrom_Suc:
  "Suc i < length bs \<Longrightarrow>
   ranksFrom r bs ! Suc i = ranksFrom r bs ! i + (if bs ! Suc i > bs ! i then 1 else 0)"
proof (induction r bs arbitrary: i rule: ranksFrom.induct)
  case (3 r b c bs)
  show ?case
  proof (cases i)
    case 0
    then show ?thesis by (simp add: ranksFrom_0)
  next
    case (Suc j)
    with 3 show ?thesis by simp
  qed
qed simp_all

lemma ranksFrom_equal:
  "sorted bs \<Longrightarrow> i \<le> j \<Longrightarrow> j < length bs \<Longrightarrow> bs ! i = bs ! j \<Longrightarrow>
   ranksFrom r bs ! i = ranksFrom r bs ! j"
proof (induction j)
  case 0
  then show ?case by simp
next
  case (Suc j)
  show ?case
  proof (cases "i = Suc j")
    case True
    then show ?thesis by simp
  next
    case False
    with Suc.prems have ij: "i \<le> j" and j: "j < length bs" by simp_all
    have le1: "bs ! i \<le> bs ! j"
      using sorted_nth_mono [OF Suc.prems(1) ij j] .
    have le2: "bs ! j \<le> bs ! Suc j"
      using sorted_nth_mono [OF Suc.prems(1), of j "Suc j"] Suc.prems(3) by simp
    from le1 le2 Suc.prems(4) have eq: "bs ! i = bs ! j" "bs ! j = bs ! Suc j"
      by auto
    with Suc ij j have "ranksFrom r bs ! i = ranksFrom r bs ! j" by simp
    also have "\<dots> = ranksFrom r bs ! Suc j"
      using Suc.prems eq by (simp add: ranksFrom_Suc)
    finally show ?thesis .
  qed
qed

text \<open>Below \<open>2 ^ 32\<close> the ranks do not wrap around.\<close>

lemma unat_rank_Suc: "unat r + 1 < 2 ^ 32 \<Longrightarrow> unat (r + 1 :: uint32_t) = unat r + 1"
  by (simp add: unat_word_ariths(1))

lemma ranksFrom_unat_le:
  "unat r + length bs \<le> 2 ^ 32 \<Longrightarrow> i < length bs \<Longrightarrow> unat (ranksFrom r bs ! i) \<le> unat r + i"
proof (induction i)
  case 0
  then show ?case by (cases bs) (simp_all add: ranksFrom_0)
next
  case (Suc i)
  then have IH: "unat (ranksFrom r bs ! i) \<le> unat r + i" by simp
  show ?case
  proof (cases "bs ! Suc i > bs ! i")
    case True
    from IH Suc.prems have "unat (ranksFrom r bs ! i) + 1 < 2 ^ 32" by simp
    then have "unat (ranksFrom r bs ! i + 1) = unat (ranksFrom r bs ! i) + 1"
      by (rule unat_rank_Suc)
    with IH True Suc.prems(2) show ?thesis by (simp add: ranksFrom_Suc)
  next
    case False
    with IH Suc.prems(2) show ?thesis by (simp add: ranksFrom_Suc)
  qed
qed

lemma ranksFrom_unat_Suc:
  assumes "unat r + length bs \<le> 2 ^ 32" and "Suc i < length bs"
  shows "unat (ranksFrom r bs ! Suc i) =
           unat (ranksFrom r bs ! i) + (if bs ! Suc i > bs ! i then 1 else 0)"
proof (cases "bs ! Suc i > bs ! i")
  case True
  from ranksFrom_unat_le [OF assms(1), of i] assms
  have "unat (ranksFrom r bs ! i) + 1 < 2 ^ 32" by simp
  then have "unat (ranksFrom r bs ! i + 1) = unat (ranksFrom r bs ! i) + 1"
    by (rule unat_rank_Suc)
  with True assms(2) show ?thesis by (simp add: ranksFrom_Suc)
next
  case False
  with assms(2) show ?thesis by (simp add: ranksFrom_Suc)
qed

lemma ranksFrom_mono:
  assumes "unat r + length bs \<le> 2 ^ 32"
  shows "i \<le> j \<Longrightarrow> j < length bs \<Longrightarrow> unat (ranksFrom r bs ! i) \<le> unat (ranksFrom r bs ! j)"
proof (induction j)
  case 0
  then show ?case by simp
next
  case (Suc j)
  show ?case
  proof (cases "i = Suc j")
    case True
    then show ?thesis by simp
  next
    case False
    with Suc have "unat (ranksFrom r bs ! i) \<le> unat (ranksFrom r bs ! j)" by simp
    also have "\<dots> \<le> unat (ranksFrom r bs ! Suc j)"
      using Suc.prems by (simp add: ranksFrom_unat_Suc [OF assms])
    finally show ?thesis .
  qed
qed

lemma rankLoop_ranks:
  assumes "distinct (map fst accounts)"
  shows "(\<forall>a. a \<notin> fst ` set accounts \<longrightarrow>
            map_of (fst (rankLoop cubeRootAdd accounts prev r sumAcc sumPower rank power')) a
              = map_of rank a) \<and>
         map (rankWord (fst (rankLoop cubeRootAdd accounts prev r sumAcc sumPower rank power')))
            (map fst accounts) = tl (ranksFrom r (prev # map snd accounts)) \<and>
         fst ` set (fst (rankLoop cubeRootAdd accounts prev r sumAcc sumPower rank power'))
           = fst ` set rank \<union> fst ` set accounts"
  using assms
proof (induction accounts arbitrary: prev r sumAcc sumPower rank power')
  case Nil
  then show ?case by simp
next
  case (Cons ab accounts)
  obtain a bal where ab: "ab = (a, bal)" by (cases ab)
  define r' where "r' = (if bal > prev then r + 1 else r)"
  obtain pw power'' where pi: "powerIndex power' a = (pw, power'')"
    by (cases "powerIndex power' a")
  define rank1 where "rank1 = rankAssign rank a (r', powerMetric cubeRootAdd pw)"
  define rank' where
    "rank' = fst (rankLoop cubeRootAdd accounts bal r' (sumAcc + r') (sumPower + snd pw) rank1 power'')"
  have rec: "fst (rankLoop cubeRootAdd (ab # accounts) prev r sumAcc sumPower rank power') = rank'"
    by (simp add: ab pi r'_def rank1_def rank'_def Let_def)
  have d: "distinct (map fst accounts)" using Cons.prems by simp
  note IH = Cons.IH [OF d, of bal r' "sumAcc + r'" "sumPower + snd pw" rank1 power'',
      folded rank'_def]
  have anotin: "a \<notin> fst ` set accounts" using Cons.prems by (auto simp: ab)
  with IH have "map_of rank' a = map_of rank1 a" by blast
  then have ra: "map_of rank' a = Some (r', powerMetric cubeRootAdd pw)"
    by (simp add: rank1_def map_of_rankAssign)
  then have rk: "rankWord rank' a = r'" by (simp add: rankWord_def)
  have c1: "\<forall>b. b \<notin> fst ` set (ab # accounts) \<longrightarrow> map_of rank' b = map_of rank b"
    using IH by (auto simp: ab rank1_def map_of_rankAssign)
  have c2: "map (rankWord rank') (map fst (ab # accounts))
       = tl (ranksFrom r (prev # map snd (ab # accounts)))"
  proof -
    have "tl (ranksFrom r (prev # map snd (ab # accounts)))
        = ranksFrom r' (bal # map snd accounts)"
      by (simp add: ab r'_def)
    also have "\<dots> = r' # tl (ranksFrom r' (bal # map snd accounts))"
      by (cases accounts) simp_all
    finally show ?thesis using IH rk by (simp add: ab)
  qed
  have c3: "fst ` set rank' = fst ` set rank \<union> fst ` set (ab # accounts)"
    using IH by (auto simp: rank1_def rankAssign_keys ab)
  from c1 c2 c3 show ?case unfolding rec by blast
qed

lemma rankAccounts_total:
  assumes "accounts \<noteq> []"
  shows "\<exists>rank sumAcc sumPower.
     rankAccounts cubeRootAdd accounts power' = Inr (rank, sumAcc, sumPower)"
proof -
  from assms obtain a bal rest where acc: "accounts = (a, bal) # rest"
    by (cases accounts) auto
  obtain pw power'' where pi: "powerIndex power' a = (pw, power'')"
    by (cases "powerIndex power' a")
  obtain rank sumAcc sumPower where
    "rankLoop cubeRootAdd rest bal 1 1 (snd pw)
       (rankAssign [] a (1, powerMetric cubeRootAdd pw)) power'' = (rank, sumAcc, sumPower)"
    by (rule prod_cases3)
  then show ?thesis
    by (simp add: rankAccounts_def acc pi Let_def)
qed

lemma rankAccounts_ranksFrom:
  assumes "rankAccounts cubeRootAdd accounts power' = Inr (rank, sumAcc, sumPower)"
    and "distinct (map fst accounts)"
  shows "map (rankWord rank) (map fst accounts) = ranksFrom 1 (map snd accounts) \<and>
         fst ` set rank = fst ` set accounts"
proof -
  from assms(1) obtain a bal rest where acc: "accounts = (a, bal) # rest"
    by (cases accounts) (auto simp: rankAccounts_def)
  obtain pw power'' where pi: "powerIndex power' a = (pw, power'')"
    by (cases "powerIndex power' a")
  let ?rank0 = "rankAssign [] a (1, powerMetric cubeRootAdd pw)"
  from assms(1) have loop: "fst (rankLoop cubeRootAdd rest bal 1 1 (snd pw) ?rank0 power'') = rank"
    by (simp add: rankAccounts_def acc pi Let_def)
  have d: "distinct (map fst rest)" and anotin: "a \<notin> fst ` set rest"
    using assms(2) by (auto simp: acc)
  from rankLoop_ranks [OF d, of cubeRootAdd bal 1 1 "snd pw" ?rank0 power'', unfolded loop]
  have L: "\<forall>b. b \<notin> fst ` set rest \<longrightarrow> map_of rank b = map_of ?rank0 b"
    "map (rankWord rank) (map fst rest) = tl (ranksFrom 1 (bal # map snd rest))"
    "fst ` set rank = fst ` set ?rank0 \<union> fst ` set rest"
    by simp_all
  from L(1) anotin have "map_of rank a = Some (1, powerMetric cubeRootAdd pw)"
    by simp
  then have ra: "rankWord rank a = 1"
    by (simp add: rankWord_def)
  have "ranksFrom 1 (bal # map snd rest) = 1 # tl (ranksFrom 1 (bal # map snd rest))"
    by (cases rest) simp_all
  with L(2) ra have "map (rankWord rank) (map fst accounts) = ranksFrom 1 (map snd accounts)"
    by (simp add: acc)
  moreover have "fst ` set rank = fst ` set accounts"
    using L(3) by (simp add: acc)
  ultimately show ?thesis by blast
qed

text \<open>
  Claim C4. Take a non-empty list of accounts with distinct addresses, sorted ascending
  by balance. The ranking part of \<^verbatim>\<open>applyDividend\<close> returns a rank table. In it the
  first account has rank 1; the rank of each later account is the rank of the account
  before it plus one when its balance is strictly greater than that account's balance,
  and equal to it otherwise; accounts with equal balances have equal ranks. The ranks
  are the \<^verbatim>\<open>uint32_t\<close> values of the table, and the increment is that of
  \<^verbatim>\<open>uint32_t\<close>. With fewer than \<open>2 ^ 32\<close> accounts no rank reaches the end of the range
  of \<^verbatim>\<open>uint32_t\<close>: the increment is the increment of the natural numbers, and an
  account with a smaller balance never has a larger rank.
\<close>

theorem rankAccounts_dense_rank:
  assumes "accounts \<noteq> []" and "sorted (map snd accounts)" and "distinct (map fst accounts)"
  shows "\<exists>rank sumAcc sumPower.
     rankAccounts cubeRootAdd accounts power' = Inr (rank, sumAcc, sumPower) \<and>
     rankWord rank (fst (accounts ! 0)) = 1 \<and>
     (\<forall>i. Suc i < length accounts \<longrightarrow>
        rankWord rank (fst (accounts ! Suc i)) =
          rankWord rank (fst (accounts ! i))
            + (if snd (accounts ! i) < snd (accounts ! Suc i) then 1 else 0)) \<and>
     (\<forall>x \<in> set accounts. \<forall>y \<in> set accounts.
        snd x = snd y \<longrightarrow> rankWord rank (fst x) = rankWord rank (fst y)) \<and>
     (length accounts < 2 ^ 32 \<longrightarrow>
        rankOf rank (fst (accounts ! 0)) = 1 \<and>
        (\<forall>i. Suc i < length accounts \<longrightarrow>
           rankOf rank (fst (accounts ! Suc i)) =
             rankOf rank (fst (accounts ! i))
               + (if snd (accounts ! i) < snd (accounts ! Suc i) then 1 else 0)) \<and>
        (\<forall>x \<in> set accounts. \<forall>y \<in> set accounts.
           (snd x < snd y \<longrightarrow> rankOf rank (fst x) \<le> rankOf rank (fst y)) \<and>
           (snd x = snd y \<longrightarrow> rankOf rank (fst x) = rankOf rank (fst y))))"
proof -
  from rankAccounts_total [OF assms(1), of cubeRootAdd power']
  obtain rank sumAcc sumPower where
    run: "rankAccounts cubeRootAdd accounts power' = Inr (rank, sumAcc, sumPower)"
    by blast
  let ?bs = "map snd accounts"
  from rankAccounts_ranksFrom [OF run assms(3)]
  have K: "map (rankWord rank) (map fst accounts) = ranksFrom 1 ?bs" by blast
  have nth: "rankWord rank (fst (accounts ! i)) = ranksFrom 1 ?bs ! i"
    if "i < length accounts" for i
  proof -
    have "map (rankWord rank) (map fst accounts) ! i = rankWord rank (fst (accounts ! i))"
      using that by simp
    with K show ?thesis by simp
  qed
  have first: "rankWord rank (fst (accounts ! 0)) = 1"
    using assms(1) by (simp add: nth ranksFrom_0)
  have step: "\<forall>i. Suc i < length accounts \<longrightarrow>
         rankWord rank (fst (accounts ! Suc i)) =
           rankWord rank (fst (accounts ! i))
             + (if snd (accounts ! i) < snd (accounts ! Suc i) then 1 else 0)"
    by (simp add: nth ranksFrom_Suc)
  have eq_le: "rankWord rank (fst (accounts ! i)) = rankWord rank (fst (accounts ! j))"
    if "i \<le> j" "j < length accounts" "snd (accounts ! i) = snd (accounts ! j)" for i j
  proof -
    have "ranksFrom 1 ?bs ! i = ranksFrom 1 ?bs ! j"
      using that assms(2) by (intro ranksFrom_equal) simp_all
    with that show ?thesis by (simp add: nth)
  qed
  have eq: "rankWord rank (fst (accounts ! i)) = rankWord rank (fst (accounts ! j))"
    if "i < length accounts" "j < length accounts" "snd (accounts ! i) = snd (accounts ! j)"
    for i j
  proof (cases "i \<le> j")
    case True
    with that show ?thesis by (simp add: eq_le)
  next
    case False
    then have "j \<le> i" by simp
    from eq_le [OF this that(1)] that(3) show ?thesis by simp
  qed
  have equal: "\<forall>x \<in> set accounts. \<forall>y \<in> set accounts.
        snd x = snd y \<longrightarrow> rankWord rank (fst x) = rankWord rank (fst y)"
  proof (intro ballI)
    fix x y
    assume "x \<in> set accounts" "y \<in> set accounts"
    then obtain i j where "i < length accounts" "x = accounts ! i"
      "j < length accounts" "y = accounts ! j"
      by (auto simp: in_set_conv_nth)
    then show "snd x = snd y \<longrightarrow> rankWord rank (fst x) = rankWord rank (fst y)"
      using eq by blast
  qed
  have bounded: "rankOf rank (fst (accounts ! 0)) = 1 \<and>
        (\<forall>i. Suc i < length accounts \<longrightarrow>
           rankOf rank (fst (accounts ! Suc i)) =
             rankOf rank (fst (accounts ! i))
               + (if snd (accounts ! i) < snd (accounts ! Suc i) then 1 else 0)) \<and>
        (\<forall>x \<in> set accounts. \<forall>y \<in> set accounts.
           (snd x < snd y \<longrightarrow> rankOf rank (fst x) \<le> rankOf rank (fst y)) \<and>
           (snd x = snd y \<longrightarrow> rankOf rank (fst x) = rankOf rank (fst y)))"
    if len: "length accounts < 2 ^ 32"
  proof -
    from len have range: "unat (1 :: uint32_t) + length ?bs \<le> 2 ^ 32"
      by simp
    have nfirst: "rankOf rank (fst (accounts ! 0)) = 1"
      by (simp add: rankOf_def first)
    have nstep: "\<forall>i. Suc i < length accounts \<longrightarrow>
           rankOf rank (fst (accounts ! Suc i)) =
             rankOf rank (fst (accounts ! i))
               + (if snd (accounts ! i) < snd (accounts ! Suc i) then 1 else 0)"
      using ranksFrom_unat_Suc [OF range] by (simp add: rankOf_def nth)
    have mono: "rankOf rank (fst (accounts ! i)) \<le> rankOf rank (fst (accounts ! j))"
      if "i < length accounts" "j < length accounts" "snd (accounts ! i) < snd (accounts ! j)"
      for i j
    proof (cases "i \<le> j")
      case True
      with that ranksFrom_mono [OF range True] show ?thesis by (simp add: rankOf_def nth)
    next
      case False
      then have "j \<le> i" by simp
      from sorted_nth_mono [OF assms(2) this] that
      have "snd (accounts ! j) \<le> snd (accounts ! i)"
        by simp
      with that(3) show ?thesis by simp
    qed
    have order: "\<forall>x \<in> set accounts. \<forall>y \<in> set accounts.
          (snd x < snd y \<longrightarrow> rankOf rank (fst x) \<le> rankOf rank (fst y)) \<and>
          (snd x = snd y \<longrightarrow> rankOf rank (fst x) = rankOf rank (fst y))"
    proof (intro ballI)
      fix x y
      assume xy: "x \<in> set accounts" "y \<in> set accounts"
      then obtain i j where "i < length accounts" "x = accounts ! i"
        "j < length accounts" "y = accounts ! j"
        by (auto simp: in_set_conv_nth)
      with mono have "snd x < snd y \<longrightarrow> rankOf rank (fst x) \<le> rankOf rank (fst y)"
        by blast
      moreover from equal xy
      have "snd x = snd y \<longrightarrow> rankWord rank (fst x) = rankWord rank (fst y)"
        by blast
      then have "snd x = snd y \<longrightarrow> rankOf rank (fst x) = rankOf rank (fst y)"
        by (simp add: rankOf_def)
      ultimately show "(snd x < snd y \<longrightarrow> rankOf rank (fst x) \<le> rankOf rank (fst y)) \<and>
          (snd x = snd y \<longrightarrow> rankOf rank (fst x) = rankOf rank (fst y))"
        by blast
    qed
    from nfirst nstep order show ?thesis by (intro conjI)
  qed
  from bounded have bounded': "length accounts < 2 ^ 32 \<longrightarrow>
        rankOf rank (fst (accounts ! 0)) = 1 \<and>
        (\<forall>i. Suc i < length accounts \<longrightarrow>
           rankOf rank (fst (accounts ! Suc i)) =
             rankOf rank (fst (accounts ! i))
               + (if snd (accounts ! i) < snd (accounts ! Suc i) then 1 else 0)) \<and>
        (\<forall>x \<in> set accounts. \<forall>y \<in> set accounts.
           (snd x < snd y \<longrightarrow> rankOf rank (fst x) \<le> rankOf rank (fst y)) \<and>
           (snd x = snd y \<longrightarrow> rankOf rank (fst x) = rankOf rank (fst y)))"
    by (rule impI)
  show ?thesis
    by (rule exI [of _ rank], rule exI [of _ sumAcc], rule exI [of _ sumPower])
      (intro conjI run first step equal bounded')
qed

text \<open>
  Four accounts with the balances 0, 100, 100 and 250 get the ranks 1, 2, 2 and 3.
\<close>

theorem rankAccounts_dense_rank_witness:
  "\<exists>rank sumAcc sumPower.
     rankAccounts cubeRootAddTruncated [(1, 0), (2, 100), (3, 100), (4, 250)] Map.empty
       = Inr (rank, sumAcc, sumPower) \<and>
     rankOf rank 1 = 1 \<and> rankOf rank 2 = 2 \<and> rankOf rank 3 = 2 \<and> rankOf rank 4 = 3"
proof -
  let ?accounts = "[(1, 0), (2, 100), (3, 100), (4, 250)] :: (Account \<times> uint64_t) list"
  have h: "?accounts \<noteq> []" "sorted (map snd ?accounts)" "distinct (map fst ?accounts)"
    by simp_all
  have len: "length ?accounts < 2 ^ 32"
    by simp
  from rankAccounts_dense_rank [OF h, of cubeRootAddTruncated Map.empty] len
  obtain rank sumAcc sumPower where
    run: "rankAccounts cubeRootAddTruncated ?accounts Map.empty = Inr (rank, sumAcc, sumPower)"
    and first: "rankOf rank (fst (?accounts ! 0)) = 1"
    and step: "\<forall>i. Suc i < length ?accounts \<longrightarrow>
               rankOf rank (fst (?accounts ! Suc i)) =
                 rankOf rank (fst (?accounts ! i))
                   + (if snd (?accounts ! i) < snd (?accounts ! Suc i) then 1 else 0)"
    by blast
  from first have r1: "rankOf rank 1 = 1" by simp
  from step [rule_format, of 0] r1 have r2: "rankOf rank 2 = 2" by simp
  from step [rule_format, of 1] r2 have r3: "rankOf rank 3 = 2" by simp
  from step [rule_format, of 2] r3 have r4: "rankOf rank 4 = 3" by simp
  from run r1 r2 r3 r4 show ?thesis by blast
qed
section \<open>Change: the power table\<close>

lemma powerIndex_Some: "p r = Some v \<Longrightarrow> powerIndex p r = (v, p)"
  by (simp add: powerIndex_def)

lemma powerAt_Some: "p r = Some v \<Longrightarrow> powerAt p r = v"
  by (simp add: powerAt_def)

lemma powerAt_map_le: "p \<subseteq>\<^sub>m p' \<Longrightarrow> c \<in> dom p \<Longrightarrow> powerAt p' c = powerAt p c"
  by (auto simp: powerAt_def map_le_def dom_def split: option.splits)

lemma subtreeSum_cong:
  "(\<And>c. c \<in> set (children e r) \<Longrightarrow> powerAt p' c = powerAt p c) \<Longrightarrow>
   subtreeSum p' e r = subtreeSum p e r"
  unfolding subtreeSum_def by (rule arg_cong [where f = sum_list]) simp

lemma maxChildMetric_cong:
  "(\<And>c. c \<in> set (children e r) \<Longrightarrow> powerAt p' c = powerAt p c) \<Longrightarrow>
   maxChildMetric p' e r = maxChildMetric p e r"
  unfolding maxChildMetric_def by (rule arg_cong [where f = Max]) auto

lemma children_edges: "c \<in> set (children e r) \<Longrightarrow> (r, c) \<in> referenceEdges e"
  by (cases "accountRoots e r") (auto simp: children_def referenceEdges_def)

lemma powerDerived_empty: "powerDerived e Map.empty"
  by (simp add: powerDerived_def)

lemma powerDerived_update:
  assumes "powerDerived e p" and "r \<notin> dom p" and "accountRoots e r \<noteq> None"
    and "set (children e r) \<subseteq> dom p"
    and "v = (subtreeSum p e r, maxChildMetric p e r)"
  shows "powerDerived e (p(r \<mapsto> v))"
proof -
  have le: "p \<subseteq>\<^sub>m p(r \<mapsto> v)"
    using assms(2) by (auto simp: map_le_def)
  have same: "subtreeSum (p(r \<mapsto> v)) e q = subtreeSum p e q \<and>
              maxChildMetric (p(r \<mapsto> v)) e q = maxChildMetric p e q"
    if "set (children e q) \<subseteq> dom p" for q
  proof -
    have at: "powerAt (p(r \<mapsto> v)) c = powerAt p c" if c: "c \<in> set (children e q)" for c
    proof (rule powerAt_map_le [OF le])
      from c \<open>set (children e q) \<subseteq> dom p\<close> show "c \<in> dom p" by blast
    qed
    have "subtreeSum (p(r \<mapsto> v)) e q = subtreeSum p e q"
      by (rule subtreeSum_cong) (rule at)
    moreover have "maxChildMetric (p(r \<mapsto> v)) e q = maxChildMetric p e q"
      by (rule maxChildMetric_cong) (rule at)
    ultimately show ?thesis ..
  qed
  show ?thesis
    unfolding powerDerived_def
  proof (intro allI impI)
    fix q w
    assume q: "(p(r \<mapsto> v)) q = Some w"
    show "accountRoots e q \<noteq> None \<and> set (children e q) \<subseteq> dom (p(r \<mapsto> v)) \<and>
          w = (subtreeSum (p(r \<mapsto> v)) e q, maxChildMetric (p(r \<mapsto> v)) e q)"
    proof (cases "q = r")
      case True
      with q assms(3,4,5) same [OF assms(4)] show ?thesis by auto
    next
      case False
      with q have pq: "p q = Some w" by simp
      from assms(1) [unfolded powerDerived_def, rule_format, OF pq]
      have d: "accountRoots e q \<noteq> None" "set (children e q) \<subseteq> dom p"
        "w = (subtreeSum p e q, maxChildMetric p e q)"
        by blast+
      from d(2) have "set (children e q) \<subseteq> dom (p(r \<mapsto> v))" by auto
      with d(1,3) same [OF d(2)] show ?thesis by simp
    qed
  qed
qed

lemma grows_refl: "powerDerived e p \<Longrightarrow> grows e S (p, log) (p, log)"
  by (simp add: grows_def)

lemma grows_derived: "grows e S pl (p', log') \<Longrightarrow> powerDerived e p'"
  by (simp add: grows_def)

lemma grows_map_le: "grows e S (p, log) (p', log') \<Longrightarrow> p \<subseteq>\<^sub>m p'"
  by (simp add: grows_def)

lemma grows_trans:
  assumes "grows e A (p, log) (p1, log1)" and "grows e B (p1, log1) (p', log')"
  shows "grows e (A \<union> B) (p, log) (p', log')"
proof -
  from assms(1) obtain new1 where 1: "p \<subseteq>\<^sub>m p1" "log1 = log @ new1" "distinct new1"
    "set new1 \<inter> dom p = {}" "dom p1 = dom p \<union> set new1"
    "set new1 \<subseteq> (referenceEdges e)\<^sup>* `` A"
    by (auto simp: grows_def)
  from assms(2) obtain new2 where 2: "powerDerived e p'" "p1 \<subseteq>\<^sub>m p'" "log' = log1 @ new2"
    "distinct new2" "set new2 \<inter> dom p1 = {}" "dom p' = dom p1 \<union> set new2"
    "set new2 \<subseteq> (referenceEdges e)\<^sup>* `` B"
    by (auto simp: grows_def)
  have a: "p \<subseteq>\<^sub>m p'" using 1(1) 2(2) by (rule map_le_trans)
  have b: "log' = log @ (new1 @ new2)" using 1(2) 2(3) by simp
  have c: "distinct (new1 @ new2)" using 1(3,5) 2(4,5) by auto
  have d: "set (new1 @ new2) \<inter> dom p = {}" using 1(4,5) 2(5) by auto
  have f: "dom p' = dom p \<union> set (new1 @ new2)" using 1(5) 2(6) by auto
  have g: "set (new1 @ new2) \<subseteq> (referenceEdges e)\<^sup>* `` (A \<union> B)" using 1(6) 2(7) by auto
  show ?thesis
    unfolding grows_def fst_conv snd_conv
  proof (intro conjI)
    show "\<exists>new. log' = log @ new \<and> distinct new \<and> set new \<inter> dom p = {} \<and>
             dom p' = dom p \<union> set new \<and> set new \<subseteq> (referenceEdges e)\<^sup>* `` (A \<union> B)"
      using b c d f g by blast
  qed (fact 2(1) a)+
qed

lemma grows_mono:
  assumes "grows e A pl pl'" and "(referenceEdges e)\<^sup>* `` A \<subseteq> (referenceEdges e)\<^sup>* `` B"
  shows "grows e B pl pl'"
proof -
  from assms(1) obtain new where n: "powerDerived e (fst pl')" "fst pl \<subseteq>\<^sub>m fst pl'"
    "snd pl' = snd pl @ new" "distinct new" "set new \<inter> dom (fst pl) = {}"
    "dom (fst pl') = dom (fst pl) \<union> set new" "set new \<subseteq> (referenceEdges e)\<^sup>* `` A"
    unfolding grows_def by blast
  from n(7) assms(2) have "set new \<subseteq> (referenceEdges e)\<^sup>* `` B" by (rule subset_trans)
  with n(1-6) show ?thesis unfolding grows_def by blast
qed

lemma grows_update:
  assumes "powerDerived e p" and "r \<notin> dom p" and "accountRoots e r \<noteq> None"
    and "set (children e r) \<subseteq> dom p"
    and "v = (subtreeSum p e r, maxChildMetric p e r)"
  shows "grows e {r} (p, log) (p(r \<mapsto> v), log @ [r])"
proof -
  have "powerDerived e (p(r \<mapsto> v))"
    using assms by (rule powerDerived_update)
  moreover have "p \<subseteq>\<^sub>m p(r \<mapsto> v)"
    using assms(2) by (auto simp: map_le_def)
  moreover have "\<exists>new. log @ [r] = log @ new \<and> distinct new \<and> set new \<inter> dom p = {} \<and>
             dom (p(r \<mapsto> v)) = dom p \<union> set new \<and> set new \<subseteq> (referenceEdges e)\<^sup>* `` {r}"
    using assms(2) by (intro exI [of _ "[r]"]) auto
  ultimately show ?thesis
    unfolding grows_def fst_conv snd_conv by (intro conjI)
qed

lemma Max_insert_max:
  assumes "finite S"
  shows "Max (insert (max a b) S) = Max (insert b (insert a S))"
proof (cases "S = {}")
  case True
  then show ?thesis by (simp add: max.commute)
next
  case False
  with assms show ?thesis by (simp add: max.assoc max.commute max.left_commute)
qed


lemma children_set:
  "accountRoots e r = Some sle \<Longrightarrow>
   set (children e r) = {c \<in> set (sfReferences sle). accountRoots e c \<noteq> None}"
  by (auto simp: children_def)

lemma getPowerLoopLog_grows:
  assumes P: "\<And>r p log v p' log'.
      getPowerLog fuel e r (p, log) = Some (v, p', log') \<Longrightarrow> powerDerived e p \<Longrightarrow>
      grows e {r} (p, log) (p', log') \<and>
      (accountRoots e r \<noteq> None \<longrightarrow> r \<in> dom p' \<and> v = fst (powerAt p' r))"
    and run: "getPowerLoopLog fuel e cs sumAcc maxP (p, log) = Some (s', m', p', log')"
    and der: "powerDerived e p"
  shows "grows e {c \<in> set cs. accountRoots e c \<noteq> None} (p, log) (p', log') \<and>
         {c \<in> set cs. accountRoots e c \<noteq> None} \<subseteq> dom p' \<and>
         s' = sumAcc + sum_list (map (\<lambda>c. fst (powerAt p' c) + balanceVBC e c)
                                  (filter (\<lambda>c. accountRoots e c \<noteq> None) cs)) \<and>
         m' = Max (insert maxP ((\<lambda>c. max (snd (powerAt p' c)) (balanceVBC e c)) `
                                  set (filter (\<lambda>c. accountRoots e c \<noteq> None) cs)))"
  using run der
proof (induction cs arbitrary: sumAcc maxP p log)
  case Nil
  then show ?case by (simp add: grows_refl)
next
  case (Cons c cs)
  show ?case
  proof (cases "accountRoots e c")
    case None
    with Cons.prems(1) have "getPowerLoopLog fuel e cs sumAcc maxP (p, log) = Some (s', m', p', log')"
      by simp
    moreover have "{x \<in> set (c # cs). accountRoots e x \<noteq> None}
        = {x \<in> set cs. accountRoots e x \<noteq> None}"
      using None by auto
    moreover have "filter (\<lambda>c. accountRoots e c \<noteq> None) (c # cs)
        = filter (\<lambda>c. accountRoots e c \<noteq> None) cs"
      using None by simp
    ultimately show ?thesis
      using Cons.IH [OF _ Cons.prems(2)] by presburger
  next
    case (Some sleChild)
    from Cons.prems(1) Some obtain v p1 log1 where
      g: "getPowerLog fuel e c (p, log) = Some (v, p1, log1)"
      by (cases "getPowerLog fuel e c (p, log)") auto
    from P [OF g Cons.prems(2)] Some
    have G1: "grows e {c} (p, log) (p1, log1)" and cdom: "c \<in> dom p1"
      and v: "v = fst (powerAt p1 c)"
      by auto
    from cdom obtain w where w: "p1 c = Some w" by blast
    then have pi: "powerIndex p1 c = (w, p1)" and pa: "powerAt p1 c = w"
      by (simp_all add: powerIndex_Some powerAt_Some)
    let ?bal = "sfBalanceVBC sleChild"
    from Cons.prems(1) Some g pi
    have run': "getPowerLoopLog fuel e cs (sumAcc + (v + ?bal)) (max (max (snd w) ?bal) maxP)
        (p1, log1) = Some (s', m', p', log')"
      by (simp add: Let_def)
    note IH = Cons.IH [OF run' grows_derived [OF G1]]
    from IH have G2: "grows e {c \<in> set cs. accountRoots e c \<noteq> None} (p1, log1) (p', log')"
      by blast
    have le: "p1 \<subseteq>\<^sub>m p'" using G2 by (rule grows_map_le)
    have pa': "powerAt p' c = w"
      using powerAt_map_le [OF le cdom] pa by simp
    have bal: "balanceVBC e c = ?bal"
      using Some by (simp add: balanceVBC_def)
    have sets: "{x \<in> set (c # cs). accountRoots e x \<noteq> None}
        = {c} \<union> {x \<in> set cs. accountRoots e x \<noteq> None}"
      using Some by auto
    have c1: "grows e {x \<in> set (c # cs). accountRoots e x \<noteq> None} (p, log) (p', log')"
      unfolding sets using G1 G2 by (rule grows_trans)
    have "c \<in> dom p'"
      using cdom map_le_implies_dom_le [OF le] by blast
    with IH have c2: "{x \<in> set (c # cs). accountRoots e x \<noteq> None} \<subseteq> dom p'"
      unfolding sets by blast
    have flt: "filter (\<lambda>c. accountRoots e c \<noteq> None) (c # cs)
        = c # filter (\<lambda>c. accountRoots e c \<noteq> None) cs"
      using Some by simp
    from IH have "s' = (sumAcc + (v + ?bal))
        + sum_list (map (\<lambda>c. fst (powerAt p' c) + balanceVBC e c)
             (filter (\<lambda>c. accountRoots e c \<noteq> None) cs))"
      by blast
    then have c3: "s' = sumAcc + sum_list (map (\<lambda>c. fst (powerAt p' c) + balanceVBC e c)
             (filter (\<lambda>c. accountRoots e c \<noteq> None) (c # cs)))"
      unfolding flt by (simp add: pa' bal v pa add.assoc)
    let ?S = "(\<lambda>c. max (snd (powerAt p' c)) (balanceVBC e c)) `
                set (filter (\<lambda>c. accountRoots e c \<noteq> None) cs)"
    from IH have "m' = Max (insert (max (max (snd w) ?bal) maxP) ?S)"
      by blast
    also have "\<dots> = Max (insert maxP (insert (max (snd w) ?bal) ?S))"
      by (rule Max_insert_max) simp
    finally have c4: "m' = Max (insert maxP ((\<lambda>c. max (snd (powerAt p' c)) (balanceVBC e c)) `
                set (filter (\<lambda>c. accountRoots e c \<noteq> None) (c # cs))))"
      unfolding flt by (simp add: pa' bal)
    from c1 c2 c3 c4 show ?thesis by (intro conjI)
  qed
qed

lemma getPowerLog_grows:
  assumes ac: "acyclic (referenceEdges e)"
  shows "getPowerLog fuel e r (p, log) = Some (v, p', log') \<Longrightarrow> powerDerived e p \<Longrightarrow>
         grows e {r} (p, log) (p', log') \<and>
         (accountRoots e r \<noteq> None \<longrightarrow> r \<in> dom p' \<and> v = fst (powerAt p' r))"
proof (induction fuel arbitrary: r p log v p' log')
  case 0
  then show ?case by simp
next
  case (Suc fuel)
  note run = Suc.prems(1) and der = Suc.prems(2)
  show ?case
  proof (cases "p r")
    case (Some w)
    with run have "v = fst w" "p' = p" "log' = log" by simp_all
    with Some der show ?thesis
      by (auto simp: grows_refl powerAt_Some)
  next
    case None
    show ?thesis
    proof (cases "accountRoots e r")
      case None': None
      with run None have "p' = p" "log' = log" by simp_all
      with None' der show ?thesis by (simp add: grows_refl)
    next
      case (Some sle)
      have rnot: "r \<notin> dom p" using None by auto
      have ex: "accountRoots e r \<noteq> None" using Some by simp
      show ?thesis
      proof (cases "sfReferences sle = []")
        case True
        with run None Some have res: "v = 0" "p' = p(r \<mapsto> (0, 0))" "log' = log @ [r]"
          by simp_all
        have ch: "children e r = []"
          using Some True by (simp add: children_def)
        have "grows e {r} (p, log) (p(r \<mapsto> (0, 0)), log @ [r])"
          using der rnot ex
          by (rule grows_update) (simp_all add: ch subtreeSum_def maxChildMetric_def)
        then have "grows e {r} (p, log) (p', log')"
          by (simp only: res)
        moreover have "r \<in> dom p'" "v = fst (powerAt p' r)"
          by (simp_all add: res powerAt_def)
        ultimately show ?thesis by blast
      next
        case False
        with run None Some obtain s' m' p1 log1 where
          loop: "getPowerLoopLog fuel e (sfReferences sle) 0 0 (p, log) = Some (s', m', p1, log1)"
          by (cases "getPowerLoopLog fuel e (sfReferences sle) 0 0 (p, log)") auto
        with run None Some False
        have res: "v = s'" "p' = p1(r \<mapsto> (s', m'))" "log' = log1 @ [r]"
          by auto
        note L = getPowerLoopLog_grows [OF Suc.IH loop der]
        have chs: "set (children e r) = {c \<in> set (sfReferences sle). accountRoots e c \<noteq> None}"
          using Some by (rule children_set)
        have chl: "children e r = filter (\<lambda>c. accountRoots e c \<noteq> None) (sfReferences sle)"
          using Some by (simp add: children_def)
        from L have G1: "grows e (set (children e r)) (p, log) (p1, log1)"
          and sub: "set (children e r) \<subseteq> dom p1"
          unfolding chs by blast+
        have reach: "(referenceEdges e)\<^sup>* `` set (children e r) \<subseteq> (referenceEdges e)\<^sup>+ `` {r}"
        proof
          fix x
          assume "x \<in> (referenceEdges e)\<^sup>* `` set (children e r)"
          then obtain c where c: "c \<in> set (children e r)" "(c, x) \<in> (referenceEdges e)\<^sup>*"
            by blast
          from children_edges [OF c(1)] c(2) have "(r, x) \<in> (referenceEdges e)\<^sup>+"
            by (rule rtrancl_into_trancl2)
          then show "x \<in> (referenceEdges e)\<^sup>+ `` {r}" by blast
        qed
        from G1 obtain new where new: "dom p1 = dom p \<union> set new"
          "set new \<subseteq> (referenceEdges e)\<^sup>* `` set (children e r)"
          unfolding grows_def by auto
        have rnot1: "r \<notin> dom p1"
        proof
          assume "r \<in> dom p1"
          with new(1) rnot have "r \<in> set new" by blast
          with new(2) reach have "(r, r) \<in> (referenceEdges e)\<^sup>+" by blast
          with ac show False by (simp add: acyclic_def)
        qed
        have val: "(s', m') = (subtreeSum p1 e r, maxChildMetric p1 e r)"
          using L by (simp add: subtreeSum_def maxChildMetric_def chl)
        have G2: "grows e {r} (p1, log1) (p1(r \<mapsto> (s', m')), log1 @ [r])"
          using grows_derived [OF G1] rnot1 ex sub val by (rule grows_update)
        have "(referenceEdges e)\<^sup>* `` set (children e r) \<subseteq> (referenceEdges e)\<^sup>* `` {r}"
          using reach by (auto dest: trancl_into_rtrancl)
        with G1 have "grows e {r} (p, log) (p1, log1)" by (rule grows_mono)
        from grows_trans [OF this G2] have "grows e {r} (p, log) (p', log')"
          by (simp only: res Un_absorb)
        moreover have "r \<in> dom p'" "v = fst (powerAt p' r)"
          by (simp_all add: res powerAt_def)
        ultimately show ?thesis by blast
      qed
    qed
  qed
qed

lemma getPowerRootsLog_grows:
  assumes ac: "acyclic (referenceEdges e)"
  shows "getPowerRootsLog fuel e roots (p, log) = Some (p', log') \<Longrightarrow> powerDerived e p \<Longrightarrow>
         grows e (set roots) (p, log) (p', log') \<and>
         {r \<in> set roots. accountRoots e r \<noteq> None} \<subseteq> dom p'"
proof (induction roots arbitrary: p log)
  case Nil
  then show ?case by (simp add: grows_refl)
next
  case (Cons r roots)
  from Cons.prems(1) obtain v p1 log1 where
    g: "getPowerLog fuel e r (p, log) = Some (v, p1, log1)"
    by (cases "getPowerLog fuel e r (p, log)") auto
  with Cons.prems(1) have rest: "getPowerRootsLog fuel e roots (p1, log1) = Some (p', log')"
    by simp
  from getPowerLog_grows [OF ac g Cons.prems(2)]
  have G1: "grows e {r} (p, log) (p1, log1)" and rdom: "accountRoots e r \<noteq> None \<longrightarrow> r \<in> dom p1"
    by blast+
  from Cons.IH [OF rest grows_derived [OF G1]]
  have G2: "grows e (set roots) (p1, log1) (p', log')"
    and sub: "{r \<in> set roots. accountRoots e r \<noteq> None} \<subseteq> dom p'"
    by blast+
  have "grows e ({r} \<union> set roots) (p, log) (p', log')"
    using G1 G2 by (rule grows_trans)
  then have c1: "grows e (set (r # roots)) (p, log) (p', log')"
    by simp
  have "dom p1 \<subseteq> dom p'"
    using grows_map_le [OF G2] by (rule map_le_implies_dom_le)
  with rdom sub have c2: "{x \<in> set (r # roots). accountRoots e x \<noteq> None} \<subseteq> dom p'"
    by auto
  from c1 c2 show ?case ..
qed

text \<open>More fuel does not change a result.\<close>

lemma getPowerLoopLog_fuel_Suc:
  assumes P: "\<And>r pl x. getPowerLog fuel e r pl = Some x \<Longrightarrow> getPowerLog (Suc fuel) e r pl = Some x"
  shows "getPowerLoopLog fuel e cs sumAcc maxP pl = Some y \<Longrightarrow>
         getPowerLoopLog (Suc fuel) e cs sumAcc maxP pl = Some y"
proof (induction cs arbitrary: sumAcc maxP pl)
  case Nil
  then show ?case by (cases pl) simp
next
  case (Cons c cs)
  obtain p log where pl: "pl = (p, log)" by (cases pl)
  show ?case
  proof (cases "accountRoots e c")
    case None
    with Cons show ?thesis by (simp add: pl)
  next
    case (Some sleChild)
    from Cons.prems Some obtain v p1 log1 where
      g: "getPowerLog fuel e c (p, log) = Some (v, p1, log1)"
      by (cases "getPowerLog fuel e c (p, log)") (auto simp: pl)
    from P [OF g] have g': "getPowerLog (Suc fuel) e c (p, log) = Some (v, p1, log1)" .
    from Cons.prems Some g
    have "getPowerLoopLog fuel e cs (sumAcc + (v + sfBalanceVBC sleChild))
        (max (max (snd (fst (powerIndex p1 c))) (sfBalanceVBC sleChild)) maxP)
        (snd (powerIndex p1 c), log1) = Some y"
      by (simp add: pl Let_def split_beta)
    from Cons.IH [OF this] Some g' show ?thesis
      by (simp add: pl Let_def split_beta del: getPowerLog.simps)
  qed
qed

lemma getPowerLog_fuel_Suc:
  "getPowerLog fuel e r pl = Some x \<Longrightarrow> getPowerLog (Suc fuel) e r pl = Some x"
proof (induction fuel arbitrary: r pl x)
  case 0
  then show ?case by (cases pl) simp
next
  case (Suc fuel)
  obtain p log where pl: "pl = (p, log)" by (cases pl)
  show ?case
  proof (cases "p r = None \<and> (\<exists>sle. accountRoots e r = Some sle \<and> sfReferences sle \<noteq> [])")
    case False
    with Suc.prems show ?thesis
      by (auto simp: pl split: option.splits if_splits)
  next
    case True
    then obtain sle where t: "p r = None" "accountRoots e r = Some sle" "sfReferences sle \<noteq> []"
      by blast
    from Suc.prems t obtain y where
      loop: "getPowerLoopLog fuel e (sfReferences sle) 0 0 (p, log) = Some y"
      by (cases "getPowerLoopLog fuel e (sfReferences sle) 0 0 (p, log)") (auto simp: pl)
    from getPowerLoopLog_fuel_Suc [OF Suc.IH loop]
    have loop': "getPowerLoopLog (Suc fuel) e (sfReferences sle) 0 0 (p, log) = Some y" .
    have "getPowerLog (Suc (Suc fuel)) e r (p, log) =
        (case getPowerLoopLog (Suc fuel) e (sfReferences sle) 0 0 (p, log) of
           None \<Rightarrow> None
         | Some (sumAcc, maxP, p', log') \<Rightarrow>
             Some (sumAcc, p'(r \<mapsto> (sumAcc, maxP)), log' @ [r]))"
      using t by (simp del: getPowerLoopLog.simps)
    moreover have "getPowerLog (Suc fuel) e r (p, log) =
        (case getPowerLoopLog fuel e (sfReferences sle) 0 0 (p, log) of
           None \<Rightarrow> None
         | Some (sumAcc, maxP, p', log') \<Rightarrow>
             Some (sumAcc, p'(r \<mapsto> (sumAcc, maxP)), log' @ [r]))"
      using t by (simp del: getPowerLoopLog.simps)
    ultimately show ?thesis
      using Suc.prems loop loop' by (simp add: pl del: getPowerLog.simps getPowerLoopLog.simps)
  qed
qed

lemma getPowerLog_fuel_add:
  "getPowerLog fuel e r pl = Some x \<Longrightarrow> getPowerLog (fuel + k) e r pl = Some x"
  by (induction k) (auto intro: getPowerLog_fuel_Suc)

lemma getPowerLog_fuel_mono:
  assumes "getPowerLog fuel e r pl = Some x" and "fuel \<le> fuel'"
  shows "getPowerLog fuel' e r pl = Some x"
  using getPowerLog_fuel_add [OF assms(1), of "fuel' - fuel"] assms(2) by simp

lemma getPowerRootsLog_fuel_mono:
  "getPowerRootsLog fuel e roots pl = Some x \<Longrightarrow> fuel \<le> fuel' \<Longrightarrow>
   getPowerRootsLog fuel' e roots pl = Some x"
proof (induction roots arbitrary: pl)
  case Nil
  then show ?case by simp
next
  case (Cons r roots)
  from Cons.prems(1) obtain v pl1 where
    g: "getPowerLog fuel e r pl = Some (v, pl1)"
    by (cases "getPowerLog fuel e r pl") auto
  with Cons.prems(1) have "getPowerRootsLog fuel e roots pl1 = Some x" by simp
  from Cons.IH [OF this Cons.prems(2)] getPowerLog_fuel_mono [OF g Cons.prems(2)]
  show ?case by simp
qed

text \<open>The log does not change what the functions compute.\<close>

lemma getPowerLoop_erase:
  assumes P: "\<And>r p log. getPower fuel e r p
      = map_option (\<lambda>(v, p', l). (v, p')) (getPowerLog fuel e r (p, log))"
  shows "getPowerLoop fuel e cs sumAcc maxP p
      = map_option (\<lambda>(s', m', p', l). (s', m', p'))
          (getPowerLoopLog fuel e cs sumAcc maxP (p, log))"
proof (induction cs arbitrary: sumAcc maxP p log)
  case Nil
  show ?case by simp
next
  case (Cons c cs)
  show ?case
  proof (cases "accountRoots e c")
    case None
    with Cons show ?thesis by simp
  next
    case (Some sleChild)
    show ?thesis
    proof (cases "getPowerLog fuel e c (p, log)")
      case None
      with P [of c p log] Some show ?thesis by simp
    next
      case Some': (Some x)
      obtain v p1 log1 where x: "x = (v, p1, log1)" by (cases x)
      from P [of c p log] Some' x have "getPower fuel e c p = Some (v, p1)" by simp
      with Some Some' x Cons [of _ _ "snd (powerIndex p1 c)" log1] show ?thesis
        by (simp add: Let_def split_beta)
    qed
  qed
qed

lemma getPower_erase:
  "getPower fuel e r p = map_option (\<lambda>(v, p', l). (v, p')) (getPowerLog fuel e r (p, log))"
proof (induction fuel arbitrary: r p log)
  case 0
  show ?case by simp
next
  case (Suc fuel)
  note L = getPowerLoop_erase [OF Suc, of _ 0 0 p log]
  show ?case
    by (simp add: L Let_def split: option.splits)
qed

lemma getPowerRoots_erase:
  "getPowerRoots fuel e roots p = map_option fst (getPowerRootsLog fuel e roots (p, log))"
proof (induction roots arbitrary: p log)
  case Nil
  show ?case by simp
next
  case (Cons r roots)
  show ?case
  proof (cases "getPowerLog fuel e r (p, log)")
    case None
    with getPower_erase [of fuel e r p log] show ?thesis by simp
  next
    case (Some x)
    obtain v p1 log1 where x: "x = (v, p1, log1)" by (cases x)
    from getPower_erase [of fuel e r p log] Some x have "getPower fuel e r p = Some (v, p1)"
      by simp
    with Some x Cons [of p1 log1] show ?thesis by simp
  qed
qed

text \<open>With an acyclic reference relation the recursion ends.\<close>

lemma getPowerLoopLog_total:
  assumes "\<And>c pl. c \<in> set cs \<Longrightarrow> accountRoots e c \<noteq> None \<Longrightarrow> getPowerLog fuel e c pl \<noteq> None"
  shows "getPowerLoopLog fuel e cs sumAcc maxP pl \<noteq> None"
  using assms
proof (induction cs arbitrary: sumAcc maxP pl)
  case Nil
  show ?case by (cases pl) simp
next
  case (Cons c cs)
  obtain p log where pl: "pl = (p, log)" by (cases pl)
  have IH: "getPowerLoopLog fuel e cs s m q \<noteq> None" for s m q
    using Cons.prems by (intro Cons.IH) auto
  show ?case
  proof (cases "accountRoots e c")
    case None
    with IH show ?thesis by (simp add: pl)
  next
    case (Some sleChild)
    with Cons.prems [of c "(p, log)"] obtain x where "getPowerLog fuel e c (p, log) = Some x"
      by auto
    with Some IH show ?thesis
      by (simp add: pl Let_def split_beta)
  qed
qed

lemma fuel_bound_list:
  assumes "\<And>c. c \<in> set cs \<Longrightarrow> Q c \<Longrightarrow> \<exists>N. \<forall>fuel\<ge>N. R fuel c"
  shows "\<exists>N::nat. \<forall>c \<in> set cs. Q c \<longrightarrow> (\<forall>fuel\<ge>N. R fuel c)"
  using assms
proof (induction cs)
  case Nil
  show ?case by simp
next
  case (Cons c cs)
  from Cons.IH Cons.prems obtain N1 where N1: "\<forall>c \<in> set cs. Q c \<longrightarrow> (\<forall>fuel\<ge>N1. R fuel c)"
    by (meson list.set_intros(2))
  show ?case
  proof (cases "Q c")
    case False
    with N1 show ?thesis by auto
  next
    case True
    with Cons.prems [of c] obtain N2 where N2: "\<forall>fuel\<ge>N2. R fuel c" by auto
    have "\<forall>x \<in> set (c # cs). Q x \<longrightarrow> (\<forall>fuel\<ge>max N1 N2. R fuel x)"
      using N1 N2 by auto
    then show ?thesis ..
  qed
qed

lemma getPowerLog_total:
  assumes ac: "acyclic (referenceEdges e)"
  shows "\<exists>N. \<forall>fuel\<ge>N. \<forall>pl. getPowerLog fuel e r pl \<noteq> None"
proof -
  have "finite (referenceEdges e)" by simp
  then have "wf ((referenceEdges e)\<inverse>)"
    using ac by (rule finite_acyclic_wf_converse)
  then show ?thesis
  proof (induction r rule: wf_induct_rule)
    case (less r)
    show ?case
    proof (cases "accountRoots e r")
      case None
      have "getPowerLog fuel e r pl \<noteq> None" if "fuel \<ge> 1" for fuel pl
      proof -
        from that obtain k where "fuel = Suc k" by (cases fuel) auto
        with None show ?thesis by (cases pl) (simp split: option.splits)
      qed
      then show ?thesis by blast
    next
      case (Some sle)
      have "\<exists>N. \<forall>fuel\<ge>N. \<forall>pl. getPowerLog fuel e c pl \<noteq> None"
        if "c \<in> set (sfReferences sle)" "accountRoots e c \<noteq> None" for c
      proof (rule less)
        from that Some show "(c, r) \<in> (referenceEdges e)\<inverse>"
          by (auto simp: referenceEdges_def)
      qed
      from fuel_bound_list [where Q = "\<lambda>c. accountRoots e c \<noteq> None"
          and R = "\<lambda>fuel c. \<forall>pl. getPowerLog fuel e c pl \<noteq> None", OF this]
      obtain N where N: "\<forall>c \<in> set (sfReferences sle). accountRoots e c \<noteq> None \<longrightarrow>
          (\<forall>fuel\<ge>N. \<forall>pl. getPowerLog fuel e c pl \<noteq> None)"
        by blast
      have "getPowerLog fuel e r pl \<noteq> None" if "fuel \<ge> Suc N" for fuel pl
      proof -
        from that obtain k where k: "fuel = Suc k" "k \<ge> N" by (cases fuel) auto
        obtain p log where pl: "pl = (p, log)" by (cases pl)
        have "getPowerLoopLog k e (sfReferences sle) 0 0 (p, log) \<noteq> None"
          using N k(2) by (intro getPowerLoopLog_total) blast
        then show ?thesis
          using Some by (auto simp: k pl Let_def split: option.splits)
      qed
      then show ?thesis by blast
    qed
  qed
qed

lemma getPowerRootsLog_total:
  assumes "\<And>r pl. r \<in> set roots \<Longrightarrow> getPowerLog fuel e r pl \<noteq> None"
  shows "getPowerRootsLog fuel e roots pl \<noteq> None"
  using assms
proof (induction roots arbitrary: pl)
  case Nil
  show ?case by simp
next
  case (Cons r roots)
  from Cons.prems [of r pl] obtain v pl1 where "getPowerLog fuel e r pl = Some (v, pl1)"
    by auto
  moreover have "getPowerRootsLog fuel e roots pl1 \<noteq> None"
    using Cons.prems by (intro Cons.IH) auto
  ultimately show ?case by simp
qed

lemma getPowerRootsLog_terminates:
  assumes ac: "acyclic (referenceEdges e)"
  shows "\<exists>N. \<forall>fuel\<ge>N. \<forall>pl. getPowerRootsLog fuel e roots pl \<noteq> None"
proof -
  from fuel_bound_list [where Q = "\<lambda>r. True" and cs = roots
      and R = "\<lambda>fuel r. \<forall>pl. getPowerLog fuel e r pl \<noteq> None", OF getPowerLog_total [OF ac]]
  obtain N where N: "\<forall>r \<in> set roots. \<forall>fuel\<ge>N. \<forall>pl. getPowerLog fuel e r pl \<noteq> None"
    by blast
  have "getPowerRootsLog fuel e roots pl \<noteq> None" if "fuel \<ge> N" for fuel pl
    using N that by (intro getPowerRootsLog_total) blast
  then show ?thesis by blast
qed

lemma referenceEdges_children: "(r, c) \<in> referenceEdges e \<longleftrightarrow> c \<in> set (children e r)"
  by (cases "accountRoots e r") (auto simp: children_def referenceEdges_def)

lemma referenceEdges_missing:
  assumes "accountRoots e r = None" and "(r, x) \<in> (referenceEdges e)\<^sup>*"
  shows "x = r"
  using assms(2)
proof (cases rule: converse_rtranclE)
  case base
  then show ?thesis by simp
next
  case (step y)
  with assms(1) show ?thesis by (simp add: referenceEdges_def)
qed

lemma scenarioA_edges: "referenceEdges scenarioA = {(1, 2)}"
  by (auto simp: referenceEdges_def scenarioA_def blankAccount_def split: if_splits)

lemma scenarioA_acyclic: "acyclic (referenceEdges scenarioA)"
proof -
  have "acyclic ({} :: (Account \<times> Account) set)"
    by (simp add: acyclic_def)
  then show ?thesis
    unfolding scenarioA_edges by (simp add: acyclic_insert)
qed

lemma scenarioA_reachable: "(referenceEdges scenarioA)\<^sup>* `` {1} = {1, 2}"
proof -
  have two: "x = 2" if "(2, x) \<in> {(1 :: Account, 2 :: Account)}\<^sup>*" for x
    using that by (cases rule: converse_rtranclE) simp_all
  have one: "x = 1 \<or> x = 2" if "(1, x) \<in> {(1 :: Account, 2 :: Account)}\<^sup>*" for x
    using that
  proof (cases rule: converse_rtranclE)
    case base
    then show ?thesis by simp
  next
    case (step y)
    then have "y = 2" by simp
    with step(2) two show ?thesis by blast
  qed
  have "(1, 2) \<in> {(1 :: Account, 2 :: Account)}\<^sup>*"
    by blast
  with one show ?thesis
    unfolding scenarioA_edges by blast
qed

lemma scenarioA_run:
  "getPowerRoots 2 scenarioA [1] Map.empty = Some [2 \<mapsto> (0, 0), 1 \<mapsto> (100, 100)]"
  by (simp add: numeral_2_eq_2 scenarioA_def blankAccount_def powerIndex_def Let_def)

text \<open>
  Claim C3. Let the reference relation of the ledger be acyclic, as it is in a referral
  forest. Then the engine run that calls \<^verbatim>\<open>getPower\<close> for every root returns, with
  the same power table for every sufficient depth of recursion. Each account is derived
  at most once in the run (the log of derivations holds no account twice), and the
  derived accounts are exactly the accounts of the table, which are exactly the accounts
  reachable from the existing roots. For every account of the table: its subtree sum is
  the sum over its children of the child's subtree sum plus the child's balance, its
  maximal child metric is the maximum over its children of the larger of the child's
  maximal child metric and the child's balance, all its children are in the table, and
  when it has no child its power is (0, 0). Sums are unsigned 64-bit sums. In Scenario A
  the run gives the child the power (0, 0) and the root the power (100, 100).
\<close>

theorem getPower_recurrence:
  "(acyclic (referenceEdges e) \<longrightarrow>
     (\<exists>N p log.
        (\<forall>fuel\<ge>N. getPowerRoots fuel e roots Map.empty = Some p \<and>
                    getPowerRootsLog fuel e roots (Map.empty, []) = Some (p, log)) \<and>
        distinct log \<and> set log = dom p \<and>
        dom p = (referenceEdges e)\<^sup>* `` {r \<in> set roots. accountRoots e r \<noteq> None} \<and>
        (\<forall>r \<in> dom p.
           p r = Some (subtreeSum p e r, maxChildMetric p e r) \<and>
           set (children e r) \<subseteq> dom p \<and>
           (children e r = [] \<longrightarrow> p r = Some (0, 0))))) \<and>
   getPowerRoots 2 scenarioA [1] Map.empty = Some [2 \<mapsto> (0, 0), 1 \<mapsto> (100, 100)]"
proof (intro conjI impI)
  assume ac: "acyclic (referenceEdges e)"
  from getPowerRootsLog_terminates [OF ac, of roots] obtain N where
    N: "\<forall>fuel\<ge>N. \<forall>pl. getPowerRootsLog fuel e roots pl \<noteq> None"
    by blast
  from N [rule_format, OF le_refl, of "(Map.empty, [])"]
  obtain p log where run: "getPowerRootsLog N e roots (Map.empty, []) = Some (p, log)"
    by (cases "getPowerRootsLog N e roots (Map.empty, [])") auto
  have all: "getPowerRoots fuel e roots Map.empty = Some p \<and>
             getPowerRootsLog fuel e roots (Map.empty, []) = Some (p, log)"
    if "fuel \<ge> N" for fuel
  proof -
    from getPowerRootsLog_fuel_mono [OF run that]
    have "getPowerRootsLog fuel e roots (Map.empty, []) = Some (p, log)" .
    with getPowerRoots_erase [of fuel e roots Map.empty "[]"] show ?thesis by simp
  qed
  from getPowerRootsLog_grows [OF ac run powerDerived_empty]
  have G: "grows e (set roots) (Map.empty, []) (p, log)"
    and rts: "{r \<in> set roots. accountRoots e r \<noteq> None} \<subseteq> dom p"
    by blast+
  from G have der: "powerDerived e p" and dist: "distinct log" and dom: "dom p = set log"
    and reach: "set log \<subseteq> (referenceEdges e)\<^sup>* `` set roots"
    by (auto simp: grows_def)
  have entry: "accountRoots e r \<noteq> None \<and> set (children e r) \<subseteq> dom p \<and>
      p r = Some (subtreeSum p e r, maxChildMetric p e r)" if "r \<in> dom p" for r
  proof -
    from that obtain v where "p r = Some v" by blast
    with der [unfolded powerDerived_def, rule_format, OF this] show ?thesis by simp
  qed
  have sub1: "dom p \<subseteq> (referenceEdges e)\<^sup>* `` {r \<in> set roots. accountRoots e r \<noteq> None}"
  proof
    fix x
    assume x: "x \<in> dom p"
    with dom reach obtain r where r: "r \<in> set roots" "(r, x) \<in> (referenceEdges e)\<^sup>*"
      by blast
    have "accountRoots e r \<noteq> None"
    proof
      assume "accountRoots e r = None"
      from this r(2) have "x = r" by (rule referenceEdges_missing)
      with entry [OF x] \<open>accountRoots e r = None\<close> show False by simp
    qed
    with r show "x \<in> (referenceEdges e)\<^sup>* `` {r \<in> set roots. accountRoots e r \<noteq> None}"
      by blast
  qed
  have sub2: "(referenceEdges e)\<^sup>* `` {r \<in> set roots. accountRoots e r \<noteq> None} \<subseteq> dom p"
  proof
    fix x
    assume "x \<in> (referenceEdges e)\<^sup>* `` {r \<in> set roots. accountRoots e r \<noteq> None}"
    then obtain r where r: "r \<in> set roots" "accountRoots e r \<noteq> None"
      "(r, x) \<in> (referenceEdges e)\<^sup>*"
      by blast
    from r(3) show "x \<in> dom p"
    proof (induction rule: rtrancl_induct)
      case base
      from r(1,2) rts show ?case by blast
    next
      case (step y z)
      from step(2) have "z \<in> set (children e y)" by (simp add: referenceEdges_children)
      with entry [OF step(3)] show ?case by blast
    qed
  qed
  have leaf: "p r = Some (0, 0)" if "r \<in> dom p" "children e r = []" for r
    using entry [OF that(1)] that(2) by (simp add: subtreeSum_def maxChildMetric_def)
  have each: "\<forall>r \<in> dom p.
           p r = Some (subtreeSum p e r, maxChildMetric p e r) \<and>
           set (children e r) \<subseteq> dom p \<and>
           (children e r = [] \<longrightarrow> p r = Some (0, 0))"
    using entry leaf by blast
  have domeq: "dom p = (referenceEdges e)\<^sup>* `` {r \<in> set roots. accountRoots e r \<noteq> None}"
    using sub1 sub2 by (rule subset_antisym)
  have a: "\<forall>fuel\<ge>N. getPowerRoots fuel e roots Map.empty = Some p \<and>
                    getPowerRootsLog fuel e roots (Map.empty, []) = Some (p, log)"
    using all by blast
  have b: "set log = dom p"
    using dom by simp
  show "\<exists>N p log.
        (\<forall>fuel\<ge>N. getPowerRoots fuel e roots Map.empty = Some p \<and>
                    getPowerRootsLog fuel e roots (Map.empty, []) = Some (p, log)) \<and>
        distinct log \<and> set log = dom p \<and>
        dom p = (referenceEdges e)\<^sup>* `` {r \<in> set roots. accountRoots e r \<noteq> None} \<and>
        (\<forall>r \<in> dom p.
           p r = Some (subtreeSum p e r, maxChildMetric p e r) \<and>
           set (children e r) \<subseteq> dom p \<and>
           (children e r = [] \<longrightarrow> p r = Some (0, 0)))"
    by (intro exI [of _ N] exI [of _ p] exI [of _ log] conjI a dist b domeq each)
next
  show "getPowerRoots 2 scenarioA [1] Map.empty = Some [2 \<mapsto> (0, 0), 1 \<mapsto> (100, 100)]"
    by (rule scenarioA_run)
qed

text \<open>
  Scenario A derived from the theorem: its reference relation is acyclic, both accounts
  are derived once, and the equations give (0, 0) for account 2 and (100, 100) for
  account 1.
\<close>

theorem getPower_recurrence_witness:
  "acyclic (referenceEdges scenarioA) \<and>
   (\<exists>N p log.
      (\<forall>fuel\<ge>N. getPowerRoots fuel scenarioA [1] Map.empty = Some p \<and>
                  getPowerRootsLog fuel scenarioA [1] (Map.empty, []) = Some (p, log)) \<and>
      distinct log \<and> set log = {1, 2} \<and>
      p 2 = Some (0, 0) \<and> p 1 = Some (100, 100))"
proof -
  let ?e = scenarioA
  from getPower_recurrence [of ?e "[1]"] scenarioA_acyclic
  obtain N p log where
    run: "\<forall>fuel\<ge>N. getPowerRoots fuel ?e [1] Map.empty = Some p \<and>
                    getPowerRootsLog fuel ?e [1] (Map.empty, []) = Some (p, log)"
    and log: "distinct log" "set log = dom p"
    and dom: "dom p = (referenceEdges ?e)\<^sup>* `` {r \<in> set [1]. accountRoots ?e r \<noteq> None}"
    and each: "\<forall>r \<in> dom p.
           p r = Some (subtreeSum p ?e r, maxChildMetric p ?e r) \<and>
           set (children ?e r) \<subseteq> dom p \<and>
           (children ?e r = [] \<longrightarrow> p r = Some (0, 0))"
    by blast
  have roots: "{r \<in> set [1]. accountRoots ?e r \<noteq> None} = {1}"
    by (auto simp: scenarioA_def)
  from dom roots scenarioA_reachable have d: "dom p = {1, 2}" by simp
  have ch2: "children ?e 2 = []" and ch1: "children ?e 1 = [2]"
    by (simp_all add: children_def scenarioA_def blankAccount_def)
  from each [rule_format, of 2] d ch2 have p2: "p 2 = Some (0, 0)" by blast
  from each [rule_format, of 1] d have "p 1 = Some (subtreeSum p ?e 1, maxChildMetric p ?e 1)"
    by blast
  moreover have bal: "balanceVBC ?e 2 = 100"
    by (simp add: balanceVBC_def scenarioA_def blankAccount_def)
  moreover have pa: "powerAt p 2 = (0, 0)"
    by (simp add: powerAt_def p2)
  moreover have "subtreeSum p ?e 1 = 100"
    by (simp add: subtreeSum_def ch1 pa bal)
  moreover have "maxChildMetric p ?e 1 = 100"
    by (simp add: maxChildMetric_def ch1 pa bal)
  ultimately have p1: "p 1 = Some (100, 100)"
    by simp
  have l: "set log = {1, 2}"
    using log(2) d by simp
  show ?thesis
    by (intro conjI scenarioA_acyclic exI [of _ N] exI [of _ p] exI [of _ log] run log(1) l p2 p1)
qed

section \<open>Overflow\<close>

lemma unat_sum_list_modulo:
  "unat (sum_list ws) = sum_list (map unat ws) mod 2 ^ LENGTH('a)" for ws :: "'a::len word list"
proof (induction ws)
  case Nil
  show ?case by simp
next
  case (Cons w ws)
  have "unat (w + sum_list ws) = (unat w + unat (sum_list ws)) mod 2 ^ LENGTH('a)"
    by (simp add: unat_word_ariths(1))
  also have "\<dots> = (unat w + sum_list (map unat ws) mod 2 ^ LENGTH('a)) mod 2 ^ LENGTH('a)"
    by (simp only: Cons.IH)
  also have "\<dots> = (unat w + sum_list (map unat ws)) mod 2 ^ LENGTH('a)"
    by (rule mod_add_right_eq)
  finally show ?case by simp
qed

lemma subtreeSum_modulo:
  "unat (subtreeSum p e r) =
     sum_list (map (\<lambda>c. (unat (fst (powerAt p c)) + unat (balanceVBC e c)) mod 2 ^ 64)
                 (children e r)) mod 2 ^ 64"
proof -
  have add: "unat (x + y) = (unat x + unat y) mod 2 ^ 64" for x y :: uint64_t
    by (simp add: unat_word_ariths(1))
  have "unat (subtreeSum p e r) =
      sum_list (map unat (map (\<lambda>c. fst (powerAt p c) + balanceVBC e c) (children e r)))
        mod 2 ^ 64"
    unfolding subtreeSum_def using unat_sum_list_modulo [where ?'a = 64] by simp
  then show ?thesis
    by (simp only: map_map comp_def add)
qed

lemma getPowerRoots_fuel_mono:
  assumes "getPowerRoots fuel e roots p = Some x" and "fuel \<le> fuel'"
  shows "getPowerRoots fuel' e roots p = Some x"
proof -
  from assms(1) getPowerRoots_erase [of fuel e roots p "[]"]
  obtain log where "getPowerRootsLog fuel e roots (p, []) = Some (x, log)"
    by (cases "getPowerRootsLog fuel e roots (p, [])") auto
  from getPowerRootsLog_fuel_mono [OF this assms(2)]
  show ?thesis
    by (simp add: getPowerRoots_erase [of fuel' e roots p "[]"])
qed

lemma getPowerRoots_modulo:
  assumes ac: "acyclic (referenceEdges e)"
  shows "\<exists>N p. (\<forall>fuel\<ge>N. getPowerRoots fuel e roots Map.empty = Some p) \<and>
     (\<forall>r \<in> dom p.
        unat (fst (powerAt p r)) =
          sum_list (map (\<lambda>c. (unat (fst (powerAt p c)) + unat (balanceVBC e c)) mod 2 ^ 64)
                      (children e r)) mod 2 ^ 64)"
proof -
  from getPowerRootsLog_terminates [OF ac, of roots] obtain N where
    N: "\<forall>fuel\<ge>N. \<forall>pl. getPowerRootsLog fuel e roots pl \<noteq> None"
    by blast
  from N [rule_format, OF le_refl, of "(Map.empty, [])"]
  obtain p log where run: "getPowerRootsLog N e roots (Map.empty, []) = Some (p, log)"
    by (cases "getPowerRootsLog N e roots (Map.empty, [])") auto
  have all: "getPowerRoots fuel e roots Map.empty = Some p" if "fuel \<ge> N" for fuel
  proof -
    from getPowerRootsLog_fuel_mono [OF run that]
    have "getPowerRootsLog fuel e roots (Map.empty, []) = Some (p, log)" .
    with getPowerRoots_erase [of fuel e roots Map.empty "[]"] show ?thesis by simp
  qed
  from getPowerRootsLog_grows [OF ac run powerDerived_empty]
  have "grows e (set roots) (Map.empty, []) (p, log)"
    by blast
  then have der: "powerDerived e p"
    by (rule grows_derived)
  have "unat (fst (powerAt p r)) =
          sum_list (map (\<lambda>c. (unat (fst (powerAt p c)) + unat (balanceVBC e c)) mod 2 ^ 64)
                      (children e r)) mod 2 ^ 64" if "r \<in> dom p" for r
  proof -
    from that obtain v where v: "p r = Some v" by blast
    from der [unfolded powerDerived_def, rule_format, OF v]
    have "v = (subtreeSum p e r, maxChildMetric p e r)" by simp
    with v have "fst (powerAt p r) = subtreeSum p e r"
      by (simp add: powerAt_def)
    then show ?thesis
      by (simp only: subtreeSum_modulo)
  qed
  with all show ?thesis by blast
qed

text \<open>
  Claim C8, as amended. Arithmetic overflow never rejects the transaction. In the
  dividend functor, for an existing account and non-zero denominators, a new state is
  always returned. Each of the two share products is reduced modulo \<open>2 ^ 64\<close> before it
  is divided by its denominator, so the payout is in general not the exact payout reduced
  modulo \<open>2 ^ 64\<close>; the sum of the two shares, the product of the primary payout, and the
  sums of the two balances and the two totals are each reduced modulo \<open>2 ^ 64\<close>. In the
  power computation, for an acyclic reference relation, the run over the roots returns a
  power table; the subtree sum of each of its accounts is the sum over the children of
  the child's subtree sum plus the child's balance, where each such term and the running
  sum are reduced modulo \<open>2 ^ 64\<close>.
\<close>

theorem arithmetic_wraps_modulo:
  "(accountRoots (engine st) a = Some sleDst \<and> totalPart \<noteq> 0 \<and> totalPower \<noteq> 0 \<longrightarrow>
    (\<exists>payout st'.
     divVBC totalDividendVBC totalPart totalPower (rk, metric) = Inr payout \<and>
     unat payout =
       ((unat totalDividendVBC div 2 * unat rk) mod 2 ^ 64 div unat totalPart
        + ((unat totalDividendVBC - unat totalDividendVBC div 2) * unat metric) mod 2 ^ 64
            div unat totalPower) mod 2 ^ 64 \<and>
     dividend_account params totalDividendVBC totalPart totalPower (a, rk, metric) st = Inr st' \<and>
     map_option (unat \<circ> sfBalance) (accountRoots (engine st') a) =
       Some ((unat (sfBalance sleDst)
               + (unat (sfBalanceVBC sleDst) * unat (VRP_INCREASE_RATE params)) mod 2 ^ 64)
             mod 2 ^ 64) \<and>
     map_option (unat \<circ> sfBalanceVBC) (accountRoots (engine st') a) =
       Some (if SYSTEM_CURRENCY_PARTS params \<le> payout
             then (unat (sfBalanceVBC sleDst) + unat payout) mod 2 ^ 64
             else unat (sfBalanceVBC sleDst)) \<and>
     unat (actualTotalDividendVBC st') =
       (if SYSTEM_CURRENCY_PARTS params \<le> payout
        then (unat (actualTotalDividendVBC st) + unat payout) mod 2 ^ 64
        else unat (actualTotalDividendVBC st)) \<and>
     unat (actualTotalDividend st') =
       (unat (actualTotalDividend st)
          + (unat (sfBalanceVBC sleDst) * unat (VRP_INCREASE_RATE params)) mod 2 ^ 64)
       mod 2 ^ 64)) \<and>
   (acyclic (referenceEdges e) \<longrightarrow>
    (\<exists>N p. (\<forall>fuel\<ge>N. getPowerRoots fuel e roots Map.empty = Some p) \<and>
       (\<forall>r \<in> dom p.
          unat (fst (powerAt p r)) =
            sum_list (map (\<lambda>c. (unat (fst (powerAt p c)) + unat (balanceVBC e c)) mod 2 ^ 64)
                        (children e r)) mod 2 ^ 64)))"
proof (intro conjI impI)
  assume pre: "accountRoots (engine st) a = Some sleDst \<and> totalPart \<noteq> 0 \<and> totalPower \<noteq> 0"
  let ?payout = "(totalDividendVBC div 2) * ucast rk div ucast totalPart +
          (totalDividendVBC - totalDividendVBC div 2) * metric div totalPower"
  from pre have d: "divVBC totalDividendVBC totalPart totalPower (rk, metric) = Inr ?payout"
    by (intro divVBC_defined) simp_all
  have half: "unat (totalDividendVBC div 2) = unat totalDividendVBC div 2"
    by (simp add: unat_div)
  have sub: "unat (totalDividendVBC - totalDividendVBC div 2)
      = unat totalDividendVBC - unat totalDividendVBC div 2"
    using unat_sub [of "totalDividendVBC div 2" totalDividendVBC]
    by (simp add: word_le_nat_alt half)
  have uc: "unat (ucast rk :: uint64_t) = unat rk" "unat (ucast totalPart :: uint64_t) = unat totalPart"
    by (simp_all add: unat_ucast_32_64)
  have p: "unat ?payout =
       ((unat totalDividendVBC div 2 * unat rk) mod 2 ^ 64 div unat totalPart
        + ((unat totalDividendVBC - unat totalDividendVBC div 2) * unat metric) mod 2 ^ 64
            div unat totalPower) mod 2 ^ 64"
  proof -
    have add: "unat (x + y) = (unat x + unat y) mod 2 ^ 64" for x y :: uint64_t
      by (simp add: unat_word_ariths(1))
    have mul: "unat (x * y) = (unat x * unat y) mod 2 ^ 64" for x y :: uint64_t
      by (simp add: unat_word_ariths(2))
    have two: "unat (2 :: uint64_t) = 2"
      by simp
    show ?thesis
      by (simp only: add mul unat_div sub uc two)
  qed
  from pre have ex: "accountRoots (engine st) a = Some sleDst" by simp
  from dividend_account_existing_modulo [OF ex d, of params] d p
  show "\<exists>payout st'.
     divVBC totalDividendVBC totalPart totalPower (rk, metric) = Inr payout \<and>
     unat payout =
       ((unat totalDividendVBC div 2 * unat rk) mod 2 ^ 64 div unat totalPart
        + ((unat totalDividendVBC - unat totalDividendVBC div 2) * unat metric) mod 2 ^ 64
            div unat totalPower) mod 2 ^ 64 \<and>
     dividend_account params totalDividendVBC totalPart totalPower (a, rk, metric) st = Inr st' \<and>
     map_option (unat \<circ> sfBalance) (accountRoots (engine st') a) =
       Some ((unat (sfBalance sleDst)
               + (unat (sfBalanceVBC sleDst) * unat (VRP_INCREASE_RATE params)) mod 2 ^ 64)
             mod 2 ^ 64) \<and>
     map_option (unat \<circ> sfBalanceVBC) (accountRoots (engine st') a) =
       Some (if SYSTEM_CURRENCY_PARTS params \<le> payout
             then (unat (sfBalanceVBC sleDst) + unat payout) mod 2 ^ 64
             else unat (sfBalanceVBC sleDst)) \<and>
     unat (actualTotalDividendVBC st') =
       (if SYSTEM_CURRENCY_PARTS params \<le> payout
        then (unat (actualTotalDividendVBC st) + unat payout) mod 2 ^ 64
        else unat (actualTotalDividendVBC st)) \<and>
     unat (actualTotalDividend st') =
       (unat (actualTotalDividend st)
          + (unat (sfBalanceVBC sleDst) * unat (VRP_INCREASE_RATE params)) mod 2 ^ 64)
       mod 2 ^ 64"
    by blast
next
  assume "acyclic (referenceEdges e)"
  then show "\<exists>N p. (\<forall>fuel\<ge>N. getPowerRoots fuel e roots Map.empty = Some p) \<and>
       (\<forall>r \<in> dom p.
          unat (fst (powerAt p r)) =
            sum_list (map (\<lambda>c. (unat (fst (powerAt p c)) + unat (balanceVBC e c)) mod 2 ^ 64)
                        (children e r)) mod 2 ^ 64)"
    by (rule getPowerRoots_modulo)
qed

lemma overflowLedger_edges: "referenceEdges overflowLedger = {(1, 2), (1, 3)}"
  by (auto simp: referenceEdges_def overflowLedger_def blankAccount_def split: if_splits)

lemma overflowLedger_acyclic: "acyclic (referenceEdges overflowLedger)"
proof -
  have "acyclic ({} :: (Account \<times> Account) set)"
    by (simp add: acyclic_def)
  then have "acyclic {(1 :: Account, 3 :: Account)}"
    by (simp add: acyclic_insert)
  moreover have "(2, 1) \<notin> {(1 :: Account, 3 :: Account)}\<^sup>*"
  proof
    assume "(2, 1) \<in> {(1 :: Account, 3 :: Account)}\<^sup>*"
    then show False
      by (cases rule: converse_rtranclE) simp_all
  qed
  ultimately show ?thesis
    unfolding overflowLedger_edges by (simp add: acyclic_insert)
qed

lemma overflowLedger_run:
  "getPowerRoots 2 overflowLedger [1] Map.empty =
     Some [2 \<mapsto> (0, 0), 3 \<mapsto> (0, 0), 1 \<mapsto> (0, 9223372036854775808)]"
proof -
  have wrap: "(18446744073709551616 :: uint64_t) = 0"
    by (simp add: word_eq_iff_unsigned [where ?'a = nat])
  show ?thesis
    by (simp add: numeral_2_eq_2 overflowLedger_def blankAccount_def powerIndex_def Let_def wrap)
qed

text \<open>
  The amended claim at the payment of the counterexample, and at a ledger in which the
  two children of account 1 hold \<open>2 ^ 63\<close> each: the run returns, and the subtree sum of
  account 1 is 0.
\<close>

theorem arithmetic_wraps_modulo_witness:
  "(\<exists>st'.
     divVBC 4000000000000 1 10000000000000 (1, 10000000000000) = Inr 2000000318179 \<and>
     dividend_account exampleParameters 4000000000000 1 10000000000000
       (1, 1, 10000000000000) payState = Inr st' \<and>
     map_option (unat \<circ> sfBalanceVBC) (accountRoots (engine st') 1) = Some 2000007318179 \<and>
     unat (actualTotalDividendVBC st') = 2000000318179) \<and>
   acyclic (referenceEdges overflowLedger) \<and>
   (\<exists>N p. getPowerRoots N overflowLedger [1] Map.empty = Some p \<and>
      children overflowLedger 1 = [2, 3] \<and>
      balanceVBC overflowLedger 2 = 9223372036854775808 \<and>
      balanceVBC overflowLedger 3 = 9223372036854775808 \<and>
      powerAt p 2 = (0, 0) \<and> powerAt p 3 = (0, 0) \<and> unat (fst (powerAt p 1)) = 0)"
proof -
  note inst = arithmetic_wraps_modulo [where st = payState and a = 1
      and sleDst = "(blankAccount 1)\<lparr>sfBalance := 50, sfBalanceVBC := 7000000\<rparr>"
      and params = exampleParameters and totalDividendVBC = 4000000000000
      and totalPart = 1 and totalPower = 10000000000000
      and rk = 1 and metric = 10000000000000 and e = overflowLedger and roots = "[1]"]
  have pre: "accountRoots (engine payState) 1
        = Some ((blankAccount 1)\<lparr>sfBalance := 50, sfBalanceVBC := 7000000\<rparr>) \<and>
      (1 :: uint32_t) \<noteq> 0 \<and> (10000000000000 :: uint64_t) \<noteq> 0"
    by (simp add: payState_account)
  have ev: "divVBC 4000000000000 1 10000000000000 (1, 10000000000000) = Inr 2000000318179"
    by (simp add: divVBC_def)
  from inst pre obtain payout st' where
    "divVBC 4000000000000 1 10000000000000 (1, 10000000000000) = Inr payout"
    and st': "dividend_account exampleParameters 4000000000000 1 10000000000000
       (1, 1, 10000000000000) payState = Inr st'"
    and bal: "map_option (unat \<circ> sfBalanceVBC) (accountRoots (engine st') 1) =
       Some (if SYSTEM_CURRENCY_PARTS exampleParameters \<le> payout
             then (unat (sfBalanceVBC ((blankAccount 1)\<lparr>sfBalance := 50, sfBalanceVBC := 7000000\<rparr>))
                     + unat payout) mod 2 ^ 64
             else unat (sfBalanceVBC ((blankAccount 1)\<lparr>sfBalance := 50, sfBalanceVBC := 7000000\<rparr>)))"
    and tot: "unat (actualTotalDividendVBC st') =
       (if SYSTEM_CURRENCY_PARTS exampleParameters \<le> payout
        then (unat (actualTotalDividendVBC payState) + unat payout) mod 2 ^ 64
        else unat (actualTotalDividendVBC payState))"
    by blast
  with ev have payout: "payout = 2000000318179"
    by simp
  from bal tot have pay: "\<exists>st'.
     divVBC 4000000000000 1 10000000000000 (1, 10000000000000) = Inr 2000000318179 \<and>
     dividend_account exampleParameters 4000000000000 1 10000000000000
       (1, 1, 10000000000000) payState = Inr st' \<and>
     map_option (unat \<circ> sfBalanceVBC) (accountRoots (engine st') 1) = Some 2000007318179 \<and>
     unat (actualTotalDividendVBC st') = 2000000318179"
    unfolding payout using ev st'
    by (auto simp: exampleParameters_def payState_def blankAccount_def)
  from inst overflowLedger_acyclic obtain N p where
    run: "\<forall>fuel\<ge>N. getPowerRoots fuel overflowLedger [1] Map.empty = Some p"
    and each: "\<forall>r \<in> dom p.
          unat (fst (powerAt p r)) =
            sum_list (map (\<lambda>c. (unat (fst (powerAt p c)) + unat (balanceVBC overflowLedger c))
                                mod 2 ^ 64)
                        (children overflowLedger r)) mod 2 ^ 64"
    by blast
  from run have r1: "getPowerRoots (max N 2) overflowLedger [1] Map.empty = Some p"
    by simp
  from getPowerRoots_fuel_mono [OF overflowLedger_run, of "max N 2"] r1
  have p: "p = [2 \<mapsto> (0, 0), 3 \<mapsto> (0, 0), 1 \<mapsto> (0, 9223372036854775808)]"
    by simp
  have ch: "children overflowLedger 1 = [2, 3]"
    by (simp add: children_def overflowLedger_def blankAccount_def)
  have b: "balanceVBC overflowLedger 2 = 9223372036854775808"
    "balanceVBC overflowLedger 3 = 9223372036854775808"
    by (simp_all add: balanceVBC_def overflowLedger_def blankAccount_def)
  have pa: "powerAt p 2 = (0, 0)" "powerAt p 3 = (0, 0)"
    by (simp_all add: p powerAt_def)
  have "1 \<in> dom p"
    by (simp add: p)
  from each [rule_format, OF this] have s: "unat (fst (powerAt p 1)) = 0"
    by (simp add: ch b pa)
  show ?thesis
    by (intro conjI pay overflowLedger_acyclic exI [of _ "max N 2"] exI [of _ p] r1 ch b pa s)
qed

section \<open>Change: the dividend transaction\<close>

text \<open>\<^verbatim>\<open>getPower\<close> reads nothing of the engine but the account roots.\<close>

lemma getPowerLoop_accountRoots_cong:
  assumes P: "\<And>r p. getPower fuel e r p = getPower fuel e' r p"
    and eq: "accountRoots e = accountRoots e'"
  shows "getPowerLoop fuel e cs sumAcc maxP p = getPowerLoop fuel e' cs sumAcc maxP p"
  by (induction cs arbitrary: sumAcc maxP p)
     (simp_all add: P eq Let_def split_beta split: option.splits)

lemma getPower_accountRoots_cong:
  assumes eq: "accountRoots e = accountRoots e'"
  shows "getPower fuel e r p = getPower fuel e' r p"
proof (induction fuel arbitrary: r p)
  case 0
  show ?case by simp
next
  case (Suc fuel)
  note L = getPowerLoop_accountRoots_cong [OF Suc eq]
  show ?case by (simp add: L eq Let_def split: option.splits)
qed

lemma getPowerRoots_accountRoots_cong:
  assumes eq: "accountRoots e = accountRoots e'"
  shows "getPowerRoots fuel e roots p = getPowerRoots fuel e' roots p"
  by (induction roots arbitrary: p)
     (simp_all add: getPower_accountRoots_cong [OF eq] split: option.splits)

text \<open>The functor's payout is the payout of the specification.\<close>

lemma divVBC_secondaryPayout:
  assumes "totalPart \<noteq> 0" and "totalPower \<noteq> 0"
  shows "divVBC totalDividendVBC totalPart totalPower v
           = Inr (secondaryPayout totalDividendVBC totalPart totalPower v)"
  using assms by (simp add: divVBC_def secondaryPayout_def Let_def)

lemma dividend_account_step:
  assumes "totalPart \<noteq> 0" and "totalPower \<noteq> 0"
  shows "\<exists>st'. dividend_account params pool totalPart totalPower (a, v) st = Inr st' \<and>
     dom (accountRoots (engine st')) = dom (accountRoots (engine st)) \<and>
     (\<forall>b. b \<noteq> a \<longrightarrow> accountRoots (engine st') b = accountRoots (engine st) b) \<and>
     map_option sfBalanceVBC (accountRoots (engine st') a) =
       map_option (\<lambda>sle. if a \<in> dom (accountRoots (engine st)) \<and>
                            SYSTEM_CURRENCY_PARTS params
                              \<le> secondaryPayout pool totalPart totalPower v
                          then sfBalanceVBC sle + secondaryPayout pool totalPart totalPower v
                          else sfBalanceVBC sle)
         (accountRoots (engine st) a) \<and>
     actualTotalDividendVBC st' = actualTotalDividendVBC st
       + sum_list (creditedPayouts params pool totalPart totalPower
                     (dom (accountRoots (engine st))) [(a, v)])"
proof (cases "accountRoots (engine st) a")
  case None
  then show ?thesis
    using assms
    by (auto simp: dividend_account_def divVBC_secondaryPayout creditedPayouts_def)
next
  case (Some sleDst)
  obtain rk metric where v: "v = (rk, metric)" by (cases v)
  have d: "divVBC pool totalPart totalPower (rk, metric)
      = Inr (secondaryPayout pool totalPart totalPower v)"
    using assms by (simp add: divVBC_secondaryPayout v)
  show ?thesis
    unfolding v dividend_account_existing [OF Some d, of params]
    using Some
    by (auto simp: setAccountRoot_def entryModify_def creditedPayouts_def v)
qed

lemma creditedPayouts_Cons:
  "creditedPayouts params pool totalPart totalPower existing (av # rank)
     = creditedPayouts params pool totalPart totalPower existing [av]
       @ creditedPayouts params pool totalPart totalPower existing rank"
  by (simp add: creditedPayouts_def)

lemma for_each_dividend_total:
  assumes "totalPart \<noteq> 0" and "totalPower \<noteq> 0"
  shows "\<exists>st'. for_each_dividend params pool totalPart totalPower rank st = Inr st' \<and>
     dom (accountRoots (engine st')) = dom (accountRoots (engine st)) \<and>
     (\<forall>b. b \<notin> fst ` set rank \<longrightarrow> accountRoots (engine st') b = accountRoots (engine st) b) \<and>
     actualTotalDividendVBC st' = actualTotalDividendVBC st
       + sum_list (creditedPayouts params pool totalPart totalPower
                     (dom (accountRoots (engine st))) rank)"
proof (induction rank arbitrary: st)
  case Nil
  show ?case by (simp add: creditedPayouts_def)
next
  case (Cons av rank)
  obtain a v where av: "av = (a, v)" by (cases av)
  from dividend_account_step [OF assms, of params pool a v st] obtain st1 where
    s1: "dividend_account params pool totalPart totalPower (a, v) st = Inr st1"
    "dom (accountRoots (engine st1)) = dom (accountRoots (engine st))"
    "\<forall>b. b \<noteq> a \<longrightarrow> accountRoots (engine st1) b = accountRoots (engine st) b"
    "actualTotalDividendVBC st1 = actualTotalDividendVBC st
       + sum_list (creditedPayouts params pool totalPart totalPower
                     (dom (accountRoots (engine st))) [(a, v)])"
    by blast
  from Cons [of st1] obtain st' where
    s2: "for_each_dividend params pool totalPart totalPower rank st1 = Inr st'"
    "dom (accountRoots (engine st')) = dom (accountRoots (engine st1))"
    "\<forall>b. b \<notin> fst ` set rank \<longrightarrow> accountRoots (engine st') b = accountRoots (engine st1) b"
    "actualTotalDividendVBC st' = actualTotalDividendVBC st1
       + sum_list (creditedPayouts params pool totalPart totalPower
                     (dom (accountRoots (engine st1))) rank)"
    by blast
  have r: "for_each_dividend params pool totalPart totalPower (av # rank) st = Inr st'"
    using s1(1) s2(1) by (simp add: av)
  have d: "dom (accountRoots (engine st')) = dom (accountRoots (engine st))"
    using s1(2) s2(2) by simp
  have o: "\<forall>b. b \<notin> fst ` set (av # rank) \<longrightarrow>
      accountRoots (engine st') b = accountRoots (engine st) b"
    using s1(3) s2(3) by (simp add: av)
  have t: "actualTotalDividendVBC st' = actualTotalDividendVBC st
       + sum_list (creditedPayouts params pool totalPart totalPower
                     (dom (accountRoots (engine st))) (av # rank))"
    unfolding creditedPayouts_Cons [of _ _ _ _ _ av rank]
    using s1(4) s2(4) by (simp add: s1(2) av add.assoc)
  from r d o t show ?case by blast
qed

lemma for_each_dividend_balance:
  assumes "totalPart \<noteq> 0" and "totalPower \<noteq> 0"
    and "for_each_dividend params pool totalPart totalPower rank st = Inr st'"
    and "distinct (map fst rank)" and "(a, v) \<in> set rank"
  shows "map_option sfBalanceVBC (accountRoots (engine st') a) =
       map_option (\<lambda>sle. if SYSTEM_CURRENCY_PARTS params
                               \<le> secondaryPayout pool totalPart totalPower v
                          then sfBalanceVBC sle + secondaryPayout pool totalPart totalPower v
                          else sfBalanceVBC sle)
         (accountRoots (engine st) a)"
  using assms(3-5)
proof (induction rank arbitrary: st)
  case Nil
  then show ?case by simp
next
  case (Cons bw rank)
  obtain b w where bw: "bw = (b, w)" by (cases bw)
  from dividend_account_step [OF assms(1,2), of params pool b w st] obtain st1 where
    s1: "dividend_account params pool totalPart totalPower (b, w) st = Inr st1"
    "\<forall>c. c \<noteq> b \<longrightarrow> accountRoots (engine st1) c = accountRoots (engine st) c"
    "map_option sfBalanceVBC (accountRoots (engine st1) b) =
       map_option (\<lambda>sle. if b \<in> dom (accountRoots (engine st)) \<and>
                            SYSTEM_CURRENCY_PARTS params
                              \<le> secondaryPayout pool totalPart totalPower w
                          then sfBalanceVBC sle + secondaryPayout pool totalPart totalPower w
                          else sfBalanceVBC sle)
         (accountRoots (engine st) b)"
    by blast
  from Cons.prems(1) s1(1) have rest:
    "for_each_dividend params pool totalPart totalPower rank st1 = Inr st'"
    by (simp add: bw)
  show ?case
  proof (cases "(a, v) = (b, w)")
    case True
    then have ab: "a = b" "v = w" by simp_all
    have "b \<notin> fst ` set rank" using Cons.prems(2) by (simp add: bw)
    moreover from for_each_dividend_total [OF assms(1,2), of params pool rank st1] rest
    have "\<forall>c. c \<notin> fst ` set rank \<longrightarrow> accountRoots (engine st') c = accountRoots (engine st1) c"
      by simp
    ultimately have "accountRoots (engine st') b = accountRoots (engine st1) b" by blast
    with s1(3) show ?thesis
      by (cases "accountRoots (engine st) b") (auto simp: ab domIff)
  next
    case False
    with Cons.prems(3) have mem: "(a, v) \<in> set rank" by (auto simp: bw)
    with Cons.prems(2) have "a \<noteq> b" by (auto simp: bw image_iff)
    with s1(2) have "accountRoots (engine st1) a = accountRoots (engine st) a" by blast
    moreover from Cons.prems(2) have "distinct (map fst rank)" by simp
    from Cons.IH [OF rest this mem]
    have "map_option sfBalanceVBC (accountRoots (engine st') a) =
       map_option (\<lambda>sle. if SYSTEM_CURRENCY_PARTS params
                               \<le> secondaryPayout pool totalPart totalPower v
                          then sfBalanceVBC sle + secondaryPayout pool totalPart totalPower v
                          else sfBalanceVBC sle)
         (accountRoots (engine st1) a)" .
    ultimately show ?thesis by simp
  qed
qed

lemma rankAssign_new: "a \<notin> fst ` set rank \<Longrightarrow> rankAssign rank a v = rank @ [(a, v)]"
  by (induction rank) auto

lemma powerIndex_powerAt: "fst (powerIndex p a) = powerAt p a"
  by (simp add: powerIndex_def powerAt_def split: option.splits)

lemma powerAt_powerIndex: "powerAt (snd (powerIndex p a)) b = powerAt p b"
  by (simp add: powerIndex_def powerAt_def split: option.splits)

lemma rankLoop_table:
  assumes "distinct (map fst accounts)" and "fst ` set accounts \<inter> fst ` set rank = {}"
  shows "\<exists>new.
     rankLoop cubeRootAdd accounts prev r sumAcc sumPower rank power' =
       (rank @ new, sumAcc + sum_list (map (\<lambda>x. fst (snd x)) new),
        sumPower + sum_list (map (\<lambda>a. snd (powerAt power' a)) (map fst accounts))) \<and>
     map fst new = map fst accounts \<and>
     (\<forall>x \<in> set new. snd (snd x) = powerMetric cubeRootAdd (powerAt power' (fst x)))"
  using assms
proof (induction accounts arbitrary: prev r sumAcc sumPower rank power')
  case Nil
  then show ?case by simp
next
  case (Cons ab accounts)
  obtain a bal where ab: "ab = (a, bal)" by (cases ab)
  define r' where "r' = (if bal > prev then r + 1 else r)"
  define pw where "pw = powerAt power' a"
  define power'' where "power'' = snd (powerIndex power' a)"
  have pi: "powerIndex power' a = (pw, power'')"
    by (simp add: pw_def power''_def powerIndex_powerAt [symmetric])
  have anew: "a \<notin> fst ` set rank" using Cons.prems(2) by (auto simp: ab)
  define entry where "entry = (a, (r', powerMetric cubeRootAdd pw))"
  have ra: "rankAssign rank a (r', powerMetric cubeRootAdd pw) = rank @ [entry]"
    using anew by (simp add: rankAssign_new entry_def)
  have rec: "rankLoop cubeRootAdd (ab # accounts) prev r sumAcc sumPower rank power' =
      rankLoop cubeRootAdd accounts bal r' (sumAcc + r') (sumPower + snd pw)
       (rank @ [entry]) power''"
    by (simp add: ab pi r'_def ra [unfolded r'_def] Let_def)
  have r4: "distinct (map fst accounts)" using Cons.prems(1) by simp
  have r5: "fst ` set accounts \<inter> fst ` set (rank @ [entry]) = {}"
    using Cons.prems by (auto simp: ab entry_def)
  from Cons.IH [OF r4 r5, of bal r' "sumAcc + r'" "sumPower + snd pw" power''] obtain new where
    n: "rankLoop cubeRootAdd accounts bal r' (sumAcc + r') (sumPower + snd pw)
          (rank @ [entry]) power'' =
        ((rank @ [entry]) @ new, (sumAcc + r') + sum_list (map (\<lambda>x. fst (snd x)) new),
         (sumPower + snd pw)
           + sum_list (map (\<lambda>a. snd (powerAt power'' a)) (map fst accounts)))"
    "map fst new = map fst accounts"
    "\<forall>x \<in> set new. snd (snd x) = powerMetric cubeRootAdd (powerAt power'' (fst x))"
    by blast
  have pa: "powerAt power'' b = powerAt power' b" for b
    by (simp add: power''_def powerAt_powerIndex)
  let ?new = "entry # new"
  have c1: "rankLoop cubeRootAdd (ab # accounts) prev r sumAcc sumPower rank power' =
       (rank @ ?new, sumAcc + sum_list (map (\<lambda>x. fst (snd x)) ?new),
        sumPower + sum_list (map (\<lambda>a. snd (powerAt power' a)) (map fst (ab # accounts))))"
    unfolding rec n(1) by (simp add: pa ab pw_def entry_def add.assoc)
  have c2: "map fst ?new = map fst (ab # accounts)" using n(2) by (simp add: entry_def ab)
  have c3: "\<forall>x \<in> set ?new. snd (snd x) = powerMetric cubeRootAdd (powerAt power' (fst x))"
    using n(3) by (simp add: pa entry_def pw_def)
  from c1 c2 c3 show ?case by blast
qed

lemma rankAccounts_table:
  assumes "rankAccounts cubeRootAdd accounts power' = Inr (rank, sumAcc, sumPower)"
    and "distinct (map fst accounts)"
  shows "map fst rank = map fst accounts \<and>
         sumAcc = sum_list (map (\<lambda>x. fst (snd x)) rank) \<and>
         sumPower = sum_list (map (\<lambda>a. snd (powerAt power' a)) (map fst accounts)) \<and>
         (\<forall>x \<in> set rank. snd (snd x) = powerMetric cubeRootAdd (powerAt power' (fst x))) \<and>
         accounts \<noteq> []"
proof -
  from assms(1) obtain a bal rest where acc: "accounts = (a, bal) # rest"
    by (cases accounts) (auto simp: rankAccounts_def)
  define pw where "pw = powerAt power' a"
  define power'' where "power'' = snd (powerIndex power' a)"
  have pi: "powerIndex power' a = (pw, power'')"
    by (simp add: pw_def power''_def powerIndex_powerAt [symmetric])
  define entry where "entry = (a, (1 :: uint32_t, powerMetric cubeRootAdd pw))"
  from assms(1) have loop: "rankLoop cubeRootAdd rest bal 1 1 (snd pw) [entry] power''
      = (rank, sumAcc, sumPower)"
    by (simp add: rankAccounts_def acc pi Let_def entry_def)
  have d: "distinct (map fst rest)" and anotin: "fst ` set rest \<inter> fst ` set [entry] = {}"
    using assms(2) by (auto simp: acc entry_def)
  from rankLoop_table [OF d anotin, of cubeRootAdd bal 1 1 "snd pw" power''] loop obtain new where
    n: "rank = [entry] @ new" "map fst new = map fst rest"
    "sumAcc = 1 + sum_list (map (\<lambda>x. fst (snd x)) new)"
    "sumPower = snd pw + sum_list (map (\<lambda>a. snd (powerAt power'' a)) (map fst rest))"
    "\<forall>x \<in> set new. snd (snd x) = powerMetric cubeRootAdd (powerAt power'' (fst x))"
    by auto
  have pa: "powerAt power'' b = powerAt power' b" for b
    by (simp add: power''_def powerAt_powerIndex)
  have c1: "map fst rank = map fst accounts" using n(1,2) by (simp add: acc entry_def)
  have c2: "sumAcc = sum_list (map (\<lambda>x. fst (snd x)) rank)"
    using n(1,3) by (simp add: entry_def)
  have c3: "sumPower = sum_list (map (\<lambda>a. snd (powerAt power' a)) (map fst accounts))"
    using n(4) by (simp add: acc pa pw_def)
  have c4: "\<forall>x \<in> set rank. snd (snd x) = powerMetric cubeRootAdd (powerAt power' (fst x))"
    using n(1,5) by (simp add: pa entry_def pw_def)
  have c5: "accounts \<noteq> []" by (simp add: acc)
  from c1 c2 c3 c4 c5 show ?thesis by blast
qed

text \<open>The parts of a dividend transaction that returns a result code.\<close>

lemma applyDividend_Inr:
  assumes "applyDividend params cubeRootAdd fuel dividendLedger dividendCoins pool items e
             = Some (Inr (code, e'))"
  shows "\<exists>power' rank sumAcc sumPower st.
     getPowerRoots fuel e (snd (visitStateItems items)) Map.empty = Some power' \<and>
     rankAccounts cubeRootAdd (sort_key snd (fst (visitStateItems items))) power'
       = Inr (rank, sumAcc, sumPower) \<and>
     for_each_dividend params pool sumAcc sumPower rank
       \<lparr>engine = (case dividendObject e of None \<Rightarrow> entryCreateDividend e | Some _ \<Rightarrow> e),
        actualTotalDividend = 0, actualTotalDividendVBC = 0\<rparr> = Inr st \<and>
     code = tesSUCCESS \<and>
     e' = entryModify LedgerDividendIndex
            ((engine st)\<lparr>dividendObject :=
               Some \<lparr>sfDividendLedger = dividendLedger,
                     sfDividendCoins = actualTotalDividend st,
                     sfDividendCoinsVBC = actualTotalDividendVBC st\<rparr>\<rparr>)"
proof -
  let ?e1 = "case dividendObject e of None \<Rightarrow> entryCreateDividend e | Some _ \<Rightarrow> e"
  have eq: "accountRoots ?e1 = accountRoots e"
    by (simp add: entryCreateDividend_def split: option.splits)
  note cong = getPowerRoots_accountRoots_cong [OF eq]
  from assms show ?thesis
    unfolding applyDividend_def Let_def split_beta cong
    by (auto split: option.splits sum.splits)
qed

text \<open>Shares of a pool half never add up to more than the half.\<close>

lemma div_add_le_nat: "(a :: nat) div S + b div S \<le> (a + b) div S"
proof (cases "S = 0")
  case True
  then show ?thesis by simp
next
  case False
  have "a div S * S + b div S * S \<le> a + b"
    by (intro add_mono) simp_all
  then have "(a div S + b div S) * S \<le> a + b"
    by (simp only: distrib_right)
  with False show ?thesis
    by (simp add: less_eq_div_iff_mult_less_eq)
qed

lemma sum_list_div_le:
  "sum_list (map (\<lambda>x. f x div S) xs) \<le> sum_list (map f xs) div (S :: nat)"
proof (induction xs)
  case Nil
  show ?case by simp
next
  case (Cons x xs)
  have "sum_list (map (\<lambda>x. f x div S) (x # xs)) \<le> f x div S + sum_list (map f xs) div S"
    using Cons by simp
  also have "\<dots> \<le> (f x + sum_list (map f xs)) div S"
    by (rule div_add_le_nat)
  finally show ?case by simp
qed

lemma share_sum_le:
  assumes "sum_list (map g xs) \<le> S"
  shows "sum_list (map (\<lambda>x. h * g x div S) xs) \<le> (h :: nat)"
proof (cases "S = 0")
  case True
  then show ?thesis by simp
next
  case False
  have "sum_list (map (\<lambda>x. h * g x div S) xs) \<le> sum_list (map (\<lambda>x. h * g x) xs) div S"
    by (rule sum_list_div_le)
  also have "sum_list (map (\<lambda>x. h * g x) xs) = h * sum_list (map g xs)"
    by (simp add: sum_list_const_mult)
  also have "h * sum_list (map g xs) div S \<le> h * S div S"
    using assms by (intro div_le_mono mult_le_mono2)
  also have "\<dots> = h"
    using False by simp
  finally show ?thesis .
qed

lemma unat_sum_list_le: "unat (sum_list ws) \<le> sum_list (map unat ws)"
  for ws :: "'a::len word list"
proof (induction ws)
  case Nil
  show ?case by simp
next
  case (Cons w ws)
  have "unat (w + sum_list ws) \<le> unat w + unat (sum_list ws)"
    by (simp add: unat_word_ariths(1))
  with Cons show ?case by simp
qed

lemma unat_pool_halves:
  "unat (pool div 2) + unat (pool - pool div 2) = unat pool" for pool :: uint64_t
proof -
  have half: "unat (pool div 2) = unat pool div 2"
    by (simp add: unat_div)
  have "unat (pool - pool div 2) = unat pool - unat (pool div 2)"
    by (rule unat_sub) (simp add: word_le_nat_alt half)
  with half show ?thesis by simp
qed

lemma unat_mult_le: "unat (x * y) \<le> unat x * unat y" for x y :: "'a::len word"
  by (simp add: unat_word_ariths(2))

lemma unat_secondaryPayout_le:
  "unat (secondaryPayout pool totalPart totalPower (rk, m))
       \<le> unat (pool div 2) * unat rk div unat totalPart
         + unat (pool - pool div 2) * unat m div unat totalPower"
proof -
  have uc: "unat (ucast rk :: uint64_t) = unat rk"
    "unat (ucast totalPart :: uint64_t) = unat totalPart"
    by (simp_all add: unat_ucast_32_64)
  have "unat (pool div 2 * ucast rk) \<le> unat (pool div 2) * unat (ucast rk :: uint64_t)"
    by (rule unat_mult_le)
  then have m1: "unat (pool div 2 * ucast rk) \<le> unat (pool div 2) * unat rk"
    by (simp only: uc)
  have m2: "unat ((pool - pool div 2) * m) \<le> unat (pool - pool div 2) * unat m"
    by (rule unat_mult_le)
  have "unat (secondaryPayout pool totalPart totalPower (rk, m))
      \<le> unat (pool div 2 * ucast rk div ucast totalPart)
        + unat ((pool - pool div 2) * m div totalPower)"
    by (simp add: secondaryPayout_def unat_word_ariths(1))
  also have "\<dots> = unat (pool div 2 * ucast rk) div unat totalPart
        + unat ((pool - pool div 2) * m) div unat totalPower"
    by (simp only: unat_div uc)
  also have "\<dots> \<le> unat (pool div 2) * unat rk div unat totalPart
         + unat (pool - pool div 2) * unat m div unat totalPower"
    by (intro add_mono div_le_mono m1 m2)
  finally show ?thesis .
qed

lemma creditedPayouts_bound:
  assumes rk: "sum_list (map (\<lambda>x. unat (fst (snd x))) rank) \<le> unat totalPart"
    and mt: "sum_list (map (\<lambda>x. unat (snd (snd x))) rank) \<le> unat totalPower"
  shows "unat (sum_list (creditedPayouts params pool totalPart totalPower existing rank))
           \<le> unat pool"
proof -
  let ?pay = "\<lambda>x. unat (secondaryPayout pool totalPart totalPower (snd x))"
  let ?h1 = "unat (pool div 2)" and ?h2 = "unat (pool - pool div 2)"
  let ?P = "\<lambda>av. fst av \<in> existing \<and>
                  SYSTEM_CURRENCY_PARTS params
                    \<le> secondaryPayout pool totalPart totalPower (snd av)"
  have "unat (sum_list (creditedPayouts params pool totalPart totalPower existing rank))
      \<le> sum_list (map unat (creditedPayouts params pool totalPart totalPower existing rank))"
    by (rule unat_sum_list_le)
  also have "\<dots> = sum_list (map ?pay (filter ?P rank))"
    by (simp add: creditedPayouts_def comp_def)
  also have "\<dots> \<le> sum_list (map ?pay rank)"
    by (rule sum_list_filter_le_nat)
  also have "\<dots> \<le> sum_list (map (\<lambda>x. ?h1 * unat (fst (snd x)) div unat totalPart
                                     + ?h2 * unat (snd (snd x)) div unat totalPower) rank)"
  proof (rule sum_list_mono)
    fix x
    assume x: "x \<in> set rank"
    obtain a r m where xe: "x = (a, r, m)" by (cases x)
    from unat_secondaryPayout_le [of pool totalPart totalPower r m]
    show "?pay x \<le> ?h1 * unat (fst (snd x)) div unat totalPart
                   + ?h2 * unat (snd (snd x)) div unat totalPower"
      by (simp add: xe)
  qed
  also have "\<dots> = sum_list (map (\<lambda>x. ?h1 * unat (fst (snd x)) div unat totalPart) rank)
                 + sum_list (map (\<lambda>x. ?h2 * unat (snd (snd x)) div unat totalPower) rank)"
    by (rule sum_list_addf)
  also have "\<dots> \<le> ?h1 + ?h2"
    by (intro add_mono share_sum_le rk mt)
  also have "\<dots> = unat pool"
    by (rule unat_pool_halves)
  finally show ?thesis .
qed

lemma for_each_dividend_denominators:
  "for_each_dividend params pool totalPart totalPower (v # rank) st = Inr st' \<Longrightarrow>
   totalPart \<noteq> 0 \<and> totalPower \<noteq> 0"
  by (auto simp: dividend_account_def divVBC_def Let_def split: sum.splits if_splits)

lemma distinct_fst_sort_key:
  "distinct (map fst xs) \<Longrightarrow> distinct (map fst (sort_key f xs))"
  by (simp add: distinct_map)

lemma unat_rank_sum:
  "unat (sum_list (map (\<lambda>x. fst (snd x)) rank)) =
     sum_list (map (\<lambda>x. unat (fst (snd x))) rank) mod 2 ^ 32"
  for rank :: rank_map
  using unat_sum_list_modulo [of "map (\<lambda>x. fst (snd x)) rank"]
  by (simp add: comp_def)

text \<open>
  Claim C2, as amended. Take a dividend transaction that returns a result code, over
  state items with distinct account addresses. The secondary total it stores is the
  unsigned 64-bit sum of exactly the credited payouts: those of the rank table entries
  whose account exists and whose payout is at least the minimum transferable unit. The
  secondary balance of every ranked account grows by its payout when the payout is
  credited and is unchanged otherwise. The rank denominator is the sum of the ranks of
  the table modulo \<open>2 ^ 32\<close>. The total is at most the pool when the ranks of the table
  add up to no more than the rank denominator (their sum is below \<open>2 ^ 32\<close>) and the
  power metrics of the table add up to no more than the power denominator.
\<close>

theorem applyDividend_secondary_total:
  assumes "applyDividend params cubeRootAdd fuel dividendLedger dividendCoins pool items e
             = Some (Inr (code, e'))"
    and "distinct (map fst (fst (visitStateItems items)))"
  shows "\<exists>power' rank sumAcc sumPower d.
     getPowerRoots fuel e (snd (visitStateItems items)) Map.empty = Some power' \<and>
     rankAccounts cubeRootAdd (sort_key snd (fst (visitStateItems items))) power'
       = Inr (rank, sumAcc, sumPower) \<and>
     dividendObject e' = Some d \<and>
     sfDividendCoinsVBC d =
       sum_list (creditedPayouts params pool sumAcc sumPower (dom (accountRoots e)) rank) \<and>
     (\<forall>x \<in> set rank.
        map_option sfBalanceVBC (accountRoots e' (fst x)) =
          map_option
            (\<lambda>sle. if SYSTEM_CURRENCY_PARTS params
                         \<le> secondaryPayout pool sumAcc sumPower (snd x)
                    then sfBalanceVBC sle + secondaryPayout pool sumAcc sumPower (snd x)
                    else sfBalanceVBC sle)
            (accountRoots e (fst x))) \<and>
     unat sumAcc = sum_list (map (\<lambda>x. unat (fst (snd x))) rank) mod 2 ^ 32 \<and>
     (sum_list (map (\<lambda>x. unat (fst (snd x))) rank) \<le> unat sumAcc \<and>
      sum_list (map (\<lambda>x. unat (snd (snd x))) rank) \<le> unat sumPower
      \<longrightarrow> unat (sfDividendCoinsVBC d) \<le> unat pool)"
proof -
  let ?e1 = "case dividendObject e of None \<Rightarrow> entryCreateDividend e | Some _ \<Rightarrow> e"
  let ?accounts = "sort_key snd (fst (visitStateItems items))"
  let ?st0 = "\<lparr>engine = ?e1, actualTotalDividend = 0, actualTotalDividendVBC = 0\<rparr>"
  have eq: "accountRoots ?e1 = accountRoots e"
    by (simp add: entryCreateDividend_def split: option.splits)
  from applyDividend_Inr [OF assms(1)] obtain power' rank sumAcc sumPower st where
    gp: "getPowerRoots fuel e (snd (visitStateItems items)) Map.empty = Some power'"
    and ra: "rankAccounts cubeRootAdd ?accounts power' = Inr (rank, sumAcc, sumPower)"
    and fe: "for_each_dividend params pool sumAcc sumPower rank ?st0 = Inr st"
    and e': "e' = entryModify LedgerDividendIndex
            ((engine st)\<lparr>dividendObject :=
               Some \<lparr>sfDividendLedger = dividendLedger,
                     sfDividendCoins = actualTotalDividend st,
                     sfDividendCoinsVBC = actualTotalDividendVBC st\<rparr>\<rparr>)"
    by blast
  let ?d = "\<lparr>sfDividendLedger = dividendLedger, sfDividendCoins = actualTotalDividend st,
             sfDividendCoinsVBC = actualTotalDividendVBC st\<rparr>"
  have dacc: "distinct (map fst ?accounts)"
    using assms(2) by (rule distinct_fst_sort_key)
  from rankAccounts_table [OF ra dacc]
  have keys: "map fst rank = map fst ?accounts"
    and ssum: "sumAcc = sum_list (map (\<lambda>x. fst (snd x)) rank)"
    and ne: "?accounts \<noteq> []"
    by blast+
  have drank: "distinct (map fst rank)"
    using keys dacc by simp
  have "rank \<noteq> []"
    using keys ne by auto
  then obtain v rest where "rank = v # rest" by (cases rank) auto
  with fe have tp: "sumAcc \<noteq> 0" and tw: "sumPower \<noteq> 0"
    using for_each_dividend_denominators by blast+
  from for_each_dividend_total [OF tp tw, of params pool rank ?st0] fe
  have total: "actualTotalDividendVBC st
      = sum_list (creditedPayouts params pool sumAcc sumPower (dom (accountRoots e)) rank)"
    by (simp add: eq)
  have ar: "accountRoots e' = accountRoots (engine st)"
    by (simp add: e' entryModify_def)
  have bal: "map_option sfBalanceVBC (accountRoots e' (fst x)) =
          map_option
            (\<lambda>sle. if SYSTEM_CURRENCY_PARTS params \<le> secondaryPayout pool sumAcc sumPower (snd x)
                    then sfBalanceVBC sle + secondaryPayout pool sumAcc sumPower (snd x)
                    else sfBalanceVBC sle)
            (accountRoots e (fst x))" if "x \<in> set rank" for x
  proof -
    from that have "(fst x, snd x) \<in> set rank" by simp
    from for_each_dividend_balance [OF tp tw fe drank this] show ?thesis
      by (simp add: ar eq)
  qed
  have usum: "unat sumAcc = sum_list (map (\<lambda>x. unat (fst (snd x))) rank) mod 2 ^ 32"
    unfolding ssum by (rule unat_rank_sum)
  have bound: "unat (sfDividendCoinsVBC ?d) \<le> unat pool"
    if "sum_list (map (\<lambda>x. unat (fst (snd x))) rank) \<le> unat sumAcc"
      and "sum_list (map (\<lambda>x. unat (snd (snd x))) rank) \<le> unat sumPower"
  proof -
    from creditedPayouts_bound [OF that] total show ?thesis
      by simp
  qed
  have d: "dividendObject e' = Some ?d"
    by (simp add: e' entryModify_def)
  have t: "sfDividendCoinsVBC ?d
      = sum_list (creditedPayouts params pool sumAcc sumPower (dom (accountRoots e)) rank)"
    using total by simp
  show ?thesis
    using gp ra d t bal usum bound
    by (intro exI [of _ power'] exI [of _ rank] exI [of _ sumAcc] exI [of _ sumPower]
        exI [of _ ?d] conjI ballI impI) blast+
qed

text \<open>Two example runs, evaluated stage by stage.\<close>

lemma family_items:
  "visitStateItems (map AccountRootEntry familyAccounts) = ([(1, 0), (2, 1), (3, 1), (4, 1)], [1])"
  by (simp add: visitStateItems_def familyAccounts_def blankAccount_def)

lemma family_sorted:
  "sort_key snd [(1 :: Account, 0 :: uint64_t), (2, 1), (3, 1), (4, 1)] = [(1, 0), (2, 1), (3, 1), (4, 1)]"
  by simp

lemma family_roots:
  "accountRoots familyLedger 1 = Some ((blankAccount 1)\<lparr>sfReferences := [2, 3, 4]\<rparr>)"
  "accountRoots familyLedger 2 = Some ((blankAccount 2)\<lparr>sfReferee := 1, sfBalanceVBC := 1\<rparr>)"
  "accountRoots familyLedger 3 = Some ((blankAccount 3)\<lparr>sfReferee := 1, sfBalanceVBC := 1\<rparr>)"
  "accountRoots familyLedger 4 = Some ((blankAccount 4)\<lparr>sfReferee := 1, sfBalanceVBC := 1\<rparr>)"
  by (simp_all add: familyLedger_def familyAccounts_def blankAccount_def)

lemma family_power:
  "getPowerRoots (Suc (Suc 0)) familyLedger [1] Map.empty
     = Some [2 \<mapsto> (0, 0), 3 \<mapsto> (0, 0), 4 \<mapsto> (0, 0), 1 \<mapsto> (3, 1)]"
  by (simp add: family_roots blankAccount_def powerIndex_def)


lemma cubeRootAddTruncated_small:
  "cubeRootAddTruncated d 0 = d" "cubeRootAddTruncated d 1 = d + 1"
  by (simp_all add: cubeRootAddTruncated_def cubeRootFloor_def)

lemma family_rank:
  "rankAccounts cubeRootAddTruncated [(1, 0), (2, 1), (3, 1), (4, 1)]
     [2 \<mapsto> (0, 0), 3 \<mapsto> (0, 0), 4 \<mapsto> (0, 0), 1 \<mapsto> (3, 1)]
   = Inr ([(1, 1, 3), (2, 2, 0), (3, 2, 0), (4, 2, 0)], 7, 1)"
  by (simp add: rankAccounts_def powerIndex_def powerMetric_def cubeRootAddTruncated_small)


lemma applyDividend_compose:
  assumes "visitStateItems items = (accounts, roots)"
    and "getPowerRoots fuel e roots Map.empty = Some power'"
    and "rankAccounts cubeRootAdd (sort_key snd accounts) power' = Inr (rank, sumAcc, sumPower)"
    and "for_each_dividend params pool sumAcc sumPower rank
           \<lparr>engine = (case dividendObject e of None \<Rightarrow> entryCreateDividend e | Some _ \<Rightarrow> e),
            actualTotalDividend = 0, actualTotalDividendVBC = 0\<rparr> = Inr st"
  shows "applyDividend params cubeRootAdd fuel dividendLedger dividendCoins pool items e
     = Some (Inr (tesSUCCESS,
         entryModify LedgerDividendIndex
            ((engine st)\<lparr>dividendObject :=
               Some \<lparr>sfDividendLedger = dividendLedger,
                     sfDividendCoins = actualTotalDividend st,
                     sfDividendCoinsVBC = actualTotalDividendVBC st\<rparr>\<rparr>)))"
proof -
  let ?e1 = "case dividendObject e of None \<Rightarrow> entryCreateDividend e | Some _ \<Rightarrow> e"
  have eq: "accountRoots ?e1 = accountRoots e"
    by (simp add: entryCreateDividend_def split: option.splits)
  note cong = getPowerRoots_accountRoots_cong [OF eq]
  show ?thesis
    unfolding applyDividend_def Let_def assms(1) prod.case cong assms(2) option.case assms(3)
      sum.case assms(4)
    by simp
qed

lemma family_dom:
  "dom (accountRoots (case dividendObject familyLedger of None \<Rightarrow> entryCreateDividend familyLedger
                      | Some _ \<Rightarrow> familyLedger)) = {1, 2, 3, 4}"
  by (auto simp: familyLedger_def familyAccounts_def blankAccount_def entryCreateDividend_def
      split: if_splits)

lemma family_credited:
  "creditedPayouts exampleParameters 4000000 7 1 {1, 2, 3, 4}
     [(1, 1, 3), (2, 2, 0), (3, 2, 0), (4, 2, 0)] = [6285714]"
  by (simp add: creditedPayouts_def secondaryPayout_def exampleParameters_def)

lemma family_run:
  "\<exists>e'. applyDividend exampleParameters cubeRootAddTruncated 2 7 0 4000000
           (map AccountRootEntry familyAccounts) familyLedger = Some (Inr (tesSUCCESS, e')) \<and>
         map_option sfDividendCoinsVBC (dividendObject e') = Some 6285714"
proof -
  let ?e1 = "case dividendObject familyLedger of None \<Rightarrow> entryCreateDividend familyLedger
             | Some _ \<Rightarrow> familyLedger"
  let ?st0 = "\<lparr>engine = ?e1, actualTotalDividend = 0, actualTotalDividendVBC = 0\<rparr>"
  have nz: "(7 :: uint32_t) \<noteq> 0" "(1 :: uint64_t) \<noteq> 0"
    by simp_all
  from for_each_dividend_total [OF nz, of exampleParameters 4000000
      "[(1, 1, 3), (2, 2, 0), (3, 2, 0), (4, 2, 0)]" ?st0]
  obtain st where
    fe: "for_each_dividend exampleParameters 4000000 7 1
           [(1, 1, 3), (2, 2, 0), (3, 2, 0), (4, 2, 0)] ?st0 = Inr st"
    and tot: "actualTotalDividendVBC st = actualTotalDividendVBC ?st0
       + sum_list (creditedPayouts exampleParameters 4000000 7 1
                     (dom (accountRoots (engine ?st0)))
                     [(1, 1, 3), (2, 2, 0), (3, 2, 0), (4, 2, 0)])"
    by blast
  from tot have t: "actualTotalDividendVBC st = 6285714"
    by (simp add: family_dom family_credited)
  have p: "getPowerRoots 2 familyLedger [1] Map.empty
     = Some [2 \<mapsto> (0, 0), 3 \<mapsto> (0, 0), 4 \<mapsto> (0, 0), 1 \<mapsto> (3, 1)]"
    using family_power by (simp only: numeral_2_eq_2)
  have r: "rankAccounts cubeRootAddTruncated (sort_key snd [(1, 0), (2, 1), (3, 1), (4, 1)])
     [2 \<mapsto> (0, 0), 3 \<mapsto> (0, 0), 4 \<mapsto> (0, 0), 1 \<mapsto> (3, 1)]
   = Inr ([(1, 1, 3), (2, 2, 0), (3, 2, 0), (4, 2, 0)], 7, 1)"
    by (simp only: family_sorted family_rank)
  from applyDividend_compose [OF family_items p r fe, of 7 0]
  show ?thesis
    by (simp add: t entryModify_def)
qed


text \<open>
  Claim C2 as stated fails. In the family ledger the root has the power (3, 1) and the
  power metric 3, while the power denominator is 1. With a pool of 4000000 the root's
  payout is 285714 + 6000000, the other three payouts of 571428 are below the minimum
  unit, and the transaction succeeds with the secondary total 6285714, above the pool.
\<close>

theorem dividend_exceeds_pool_counterexample:
  "(case applyDividend exampleParameters cubeRootAddTruncated 2 7 0 4000000
           (map AccountRootEntry familyAccounts) familyLedger of
      Some (Inr (code, e')) \<Rightarrow>
        code = tesSUCCESS \<and>
        map_option sfDividendCoinsVBC (dividendObject e') = Some 6285714
    | _ \<Rightarrow> False) \<and>
   (4000000 :: uint64_t) < 6285714"
proof -
  from family_run obtain e' where
    "applyDividend exampleParameters cubeRootAddTruncated 2 7 0 4000000
           (map AccountRootEntry familyAccounts) familyLedger = Some (Inr (tesSUCCESS, e'))"
    "map_option sfDividendCoinsVBC (dividendObject e') = Some 6285714"
    by blast
  then show ?thesis by simp
qed

lemma pair_items:
  "visitStateItems (map AccountRootEntry pairAccounts) = ([(1, 0), (2, 1)], [1])"
  by (simp add: visitStateItems_def pairAccounts_def blankAccount_def)

lemma pair_sorted:
  "sort_key snd [(1 :: Account, 0 :: uint64_t), (2, 1)] = [(1, 0), (2, 1)]"
  by simp

lemma pair_roots:
  "accountRoots pairLedger 1 = Some ((blankAccount 1)\<lparr>sfReferences := [2]\<rparr>)"
  "accountRoots pairLedger 2 = Some ((blankAccount 2)\<lparr>sfReferee := 1, sfBalanceVBC := 1\<rparr>)"
  by (simp_all add: pairLedger_def pairAccounts_def blankAccount_def)

lemma pair_power:
  "getPowerRoots 2 pairLedger [1] Map.empty = Some [2 \<mapsto> (0, 0), 1 \<mapsto> (1, 1)]"
proof -
  have "getPowerRoots (Suc (Suc 0)) pairLedger [1] Map.empty
      = Some [2 \<mapsto> (0, 0), 1 \<mapsto> (1, 1)]"
    by (simp add: pair_roots blankAccount_def powerIndex_def)
  then show ?thesis by (simp only: numeral_2_eq_2)
qed

lemma pair_rank:
  "rankAccounts cubeRootAddTruncated [(1, 0), (2, 1)] [2 \<mapsto> (0, 0), 1 \<mapsto> (1, 1)]
   = Inr ([(1, 1, 1), (2, 2, 0)], 3, 1)"
  by (simp add: rankAccounts_def powerIndex_def powerMetric_def cubeRootAddTruncated_small)

lemma pair_run:
  "\<exists>e'. applyDividend exampleParameters cubeRootAddTruncated 2 7 0 4000000
           (map AccountRootEntry pairAccounts) pairLedger = Some (Inr (tesSUCCESS, e'))"
proof -
  let ?e1 = "case dividendObject pairLedger of None \<Rightarrow> entryCreateDividend pairLedger
             | Some _ \<Rightarrow> pairLedger"
  let ?st0 = "\<lparr>engine = ?e1, actualTotalDividend = 0, actualTotalDividendVBC = 0\<rparr>"
  have nz: "(3 :: uint32_t) \<noteq> 0" "(1 :: uint64_t) \<noteq> 0"
    by simp_all
  from for_each_dividend_total [OF nz, of exampleParameters 4000000
      "[(1, 1, 1), (2, 2, 0)]" ?st0]
  obtain st where
    fe: "for_each_dividend exampleParameters 4000000 3 1
           [(1, 1, 1), (2, 2, 0)] ?st0 = Inr st"
    by blast
  have r: "rankAccounts cubeRootAddTruncated (sort_key snd [(1, 0), (2, 1)])
     [2 \<mapsto> (0, 0), 1 \<mapsto> (1, 1)] = Inr ([(1, 1, 1), (2, 2, 0)], 3, 1)"
    by (simp only: pair_sorted pair_rank)
  from applyDividend_compose [OF pair_items pair_power r fe, of 7 0]
  show ?thesis by blast
qed

text \<open>
  The amended claim at the pair ledger, where the ranks add up to the rank denominator
  and the power metrics to the power denominator: both payouts are credited, and the
  total 3999999 is within the pool.
\<close>

theorem applyDividend_secondary_total_witness:
  "\<exists>e' d. applyDividend exampleParameters cubeRootAddTruncated 2 7 0 4000000
             (map AccountRootEntry pairAccounts) pairLedger = Some (Inr (tesSUCCESS, e')) \<and>
          dividendObject e' = Some d \<and>
          sfDividendCoinsVBC d = 3999999 \<and>
          unat (sfDividendCoinsVBC d) \<le> unat (4000000 :: uint64_t) \<and>
          map_option sfBalanceVBC (accountRoots e' 1) = Some 2666666 \<and>
          map_option sfBalanceVBC (accountRoots e' 2) = Some 1333334"
proof -
  from pair_run obtain e' where
    run: "applyDividend exampleParameters cubeRootAddTruncated 2 7 0 4000000
             (map AccountRootEntry pairAccounts) pairLedger = Some (Inr (tesSUCCESS, e'))"
    by blast
  have dist: "distinct (map fst (fst (visitStateItems (map AccountRootEntry pairAccounts))))"
    by (simp add: pair_items)
  from applyDividend_secondary_total [OF run dist]
  obtain power' rank sumAcc sumPower d where
    gp: "getPowerRoots 2 pairLedger (snd (visitStateItems (map AccountRootEntry pairAccounts)))
           Map.empty = Some power'"
    and ra: "rankAccounts cubeRootAddTruncated
           (sort_key snd (fst (visitStateItems (map AccountRootEntry pairAccounts)))) power'
         = Inr (rank, sumAcc, sumPower)"
    and d: "dividendObject e' = Some d"
    and tot: "sfDividendCoinsVBC d =
       sum_list (creditedPayouts exampleParameters 4000000 sumAcc sumPower
                   (dom (accountRoots pairLedger)) rank)"
    and bal: "\<forall>x \<in> set rank.
        map_option sfBalanceVBC (accountRoots e' (fst x)) =
          map_option
            (\<lambda>sle. if SYSTEM_CURRENCY_PARTS exampleParameters
                         \<le> secondaryPayout 4000000 sumAcc sumPower (snd x)
                    then sfBalanceVBC sle
                           + secondaryPayout 4000000 sumAcc sumPower (snd x)
                    else sfBalanceVBC sle)
            (accountRoots pairLedger (fst x))"
    and bound: "sum_list (map (\<lambda>x. unat (fst (snd x))) rank) \<le> unat sumAcc \<and>
      sum_list (map (\<lambda>x. unat (snd (snd x))) rank) \<le> unat sumPower
      \<longrightarrow> unat (sfDividendCoinsVBC d) \<le> unat (4000000 :: uint64_t)"
    by blast
  from gp have "Some power' = Some [2 \<mapsto> (0, 0), 1 \<mapsto> (1, 1)]"
    by (simp only: pair_items snd_conv pair_power)
  then have power': "power' = [2 \<mapsto> (0, 0), 1 \<mapsto> (1, 1)]"
    by simp
  from ra have "Inr (rank, sumAcc, sumPower)
      = (Inr ([(1, 1, 1), (2, 2, 0)], 3, 1) :: fault + (rank_map \<times> int32_t \<times> uint64_t))"
    by (simp only: power' pair_items fst_conv pair_sorted pair_rank)
  then have rk: "rank = [(1, 1, 1), (2, 2, 0)]" "sumAcc = 3" "sumPower = 1"
    by simp_all
  have dom: "dom (accountRoots pairLedger) = {1, 2}"
    by (auto simp: pairLedger_def pairAccounts_def blankAccount_def split: if_splits)
  from tot have t: "sfDividendCoinsVBC d = 3999999"
    by (simp add: rk dom creditedPayouts_def secondaryPayout_def exampleParameters_def)
  from bound have b: "unat (sfDividendCoinsVBC d) \<le> unat (4000000 :: uint64_t)"
    by (simp add: rk)
  from bal have b1: "map_option sfBalanceVBC (accountRoots e' 1) = Some 2666666"
    and b2: "map_option sfBalanceVBC (accountRoots e' 2) = Some 1333334"
    by (simp_all add: rk pair_roots secondaryPayout_def exampleParameters_def blankAccount_def)
  from run d t b b1 b2 show ?thesis by blast
qed

end
